theory Spec2Isabelle
  imports Main "HOL-Library.AList"
begin

section \<open>The file system that sync\_folders.py works on\<close>

text \<open>
  The program mirrors one directory tree (the source) into another (the replica). A tree
  node is a regular file with its bytes or a directory with its listing, in listing
  order. A root that does not exist is \<open>None\<close>. The two roots are the two locations
  named on the command line; they are taken to be distinct and not nested in each other,
  so each is a tree of its own. Symbolic links, permissions and timestamps are not
  modelled (\<open>shutil.copy2\<close> copies them along with the bytes).

  A path is a list of components below one of the two roots. The component \<open>''.''\<close> is
  kept, because \<open>os.path.relpath\<close> returns it for the root of a walk and the operating
  system resolves it only through a directory.
\<close>

type_synonym bytes = string
type_synonym path = "string list"

datatype node = File bytes | Dir "(string \<times> node) list"

datatype root = Source | Replica

type_synonym fpath = "root \<times> path"

datatype error =
    FileNotFoundError
  | NotADirectoryError
  | IsADirectoryError
  | FileExistsError
  | ValueError

text \<open>
  The observable actions: one constructor for each \<open>logging.info\<close> line of the program,
  and one for each call of \<open>time.sleep\<close>.
\<close>

datatype event =
    DirCreated fpath
  | FileCopied fpath fpath
  | DirRemoved fpath
  | FileRemoved fpath
  | SyncStarting nat nat
  | SyncCompleted nat int
  | Slept int
  | MaxReached

record state =
  src :: "node option"
  rep :: "node option"
  log :: "event list"

text \<open>A call either returns, or raises an exception out of the state it had reached.\<close>

datatype result = Ok state | Raise error state

fun state_of :: "result \<Rightarrow> state" where
  "state_of (Ok st) = st"
| "state_of (Raise e st) = st"

fun is_dir :: "node option \<Rightarrow> bool" where
  "is_dir (Some (Dir es)) = True"
| "is_dir _ = False"

fun is_file :: "node option \<Rightarrow> bool" where
  "is_file (Some (File c)) = True"
| "is_file _ = False"

subsection \<open>Path resolution\<close>

text \<open>
  \<open>get r p\<close> resolves \<open>p\<close> below the tree \<open>r\<close>: \<open>None\<close> when a component is missing
  or when the path runs through a regular file. \<open>put p v r\<close> replaces what is at
  \<open>p\<close> by \<open>v\<close> (\<open>None\<close> removes the entry) when the parent of \<open>p\<close> is a directory, and
  leaves the tree alone otherwise. A new entry goes to the end of the listing.
\<close>

fun get :: "node option \<Rightarrow> path \<Rightarrow> node option" where
  "get r [] = r"
| "get (Some (Dir es)) (n # p) =
     (if n = ''.'' then get (Some (Dir es)) p else get (map_of es n) p)"
| "get _ (n # p) = None"

definition set_entry :: "string \<Rightarrow> node option \<Rightarrow> (string \<times> node) list \<Rightarrow> (string \<times> node) list" where
  "set_entry n v es = (case v of None \<Rightarrow> AList.delete n es | Some x \<Rightarrow> AList.update n x es)"

fun put :: "path \<Rightarrow> node option \<Rightarrow> node option \<Rightarrow> node option" where
  "put [] v r = v"
| "put (n # p) v (Some (Dir es)) =
     (if n = ''.'' then put p v (Some (Dir es))
      else Some (Dir (set_entry n (put p v (map_of es n)) es)))"
| "put (n # p) v r = r"

text \<open>The errno of a failed resolution: ENOTDIR through a regular file, ENOENT otherwise.\<close>

fun missing_error :: "node option \<Rightarrow> path \<Rightarrow> error" where
  "missing_error (Some (File c)) (n # p) = NotADirectoryError"
| "missing_error (Some (Dir es)) (n # p) =
     (if n = ''.'' then missing_error (Some (Dir es)) p else missing_error (map_of es n) p)"
| "missing_error _ _ = FileNotFoundError"

fun tree_of :: "state \<Rightarrow> root \<Rightarrow> node option" where
  "tree_of st Source = src st"
| "tree_of st Replica = rep st"

fun set_tree :: "root \<Rightarrow> node option \<Rightarrow> state \<Rightarrow> state" where
  "set_tree Source t st = st\<lparr>src := t\<rparr>"
| "set_tree Replica t st = st\<lparr>rep := t\<rparr>"

subsection \<open>The library calls the program makes\<close>

definition source :: fpath where
  "source = (Source, [])"

definition replica :: fpath where
  "replica = (Replica, [])"

fun os_path_join :: "fpath \<Rightarrow> path \<Rightarrow> fpath" where
  "os_path_join (r, p) q = (r, p @ q)"

text \<open>\<open>os.path.relpath(dirpath, start)\<close> for a \<open>dirpath\<close> at or below \<open>start\<close>.\<close>

fun os_path_relpath :: "fpath \<Rightarrow> fpath \<Rightarrow> path" where
  "os_path_relpath (r, p) (r', p') = (if p = p' then [''.''] else drop (length p') p)"

fun os_path_exists :: "state \<Rightarrow> fpath \<Rightarrow> bool" where
  "os_path_exists st (r, p) = (get (tree_of st r) p \<noteq> None)"

fun os_path_isdir :: "state \<Rightarrow> fpath \<Rightarrow> bool" where
  "os_path_isdir st (r, p) = is_dir (get (tree_of st r) p)"

definition logging_info :: "event \<Rightarrow> state \<Rightarrow> state" where
  "logging_info e st = st\<lparr>log := log st @ [e]\<rparr>"

text \<open>
  \<open>os.mkdir\<close>: the parent must be a directory and the name must be free. The parent of
  a root lies outside the two trees and is taken to exist.
\<close>

fun os_mkdir :: "state \<Rightarrow> fpath \<Rightarrow> result" where
  "os_mkdir st (r, p) =
     (if p = [] then
        (if tree_of st r = None then Ok (set_tree r (Some (Dir [])) st)
         else Raise FileExistsError st)
      else
        (case get (tree_of st r) (butlast p) of
           None \<Rightarrow> Raise (missing_error (tree_of st r) p) st
         | Some (File c) \<Rightarrow> Raise NotADirectoryError st
         | Some (Dir es) \<Rightarrow>
             if last p = ''.'' \<or> get (tree_of st r) p \<noteq> None then Raise FileExistsError st
             else Ok (set_tree r (put p (Some (Dir [])) (tree_of st r)) st)))"

text \<open>
  \<open>os.makedirs(name)\<close> as CPython has it: when the head of the name does not exist it
  is made first (a \<open>FileExistsError\<close> of that call is swallowed), and a name that ends in
  \<open>''.''\<close> is then done; in every other case \<open>os.mkdir(name)\<close> follows.
\<close>

function os_makedirs :: "state \<Rightarrow> fpath \<Rightarrow> result" where
  "os_makedirs st (r, p) =
     (if p = [] then os_mkdir st (r, p)
      else if \<not> os_path_exists st (r, butlast p) then
        (case os_makedirs st (r, butlast p) of
           Raise e st' \<Rightarrow>
             if e = FileExistsError then
               (if last p = ''.'' then Ok st' else os_mkdir st' (r, p))
             else Raise e st'
         | Ok st' \<Rightarrow> if last p = ''.'' then Ok st' else os_mkdir st' (r, p))
      else os_mkdir st (r, p))"
  by pat_completeness auto
termination
  by (relation "measure (\<lambda>(st, r, p). length p)") auto

declare os_makedirs.simps [simp del]

text \<open>
  \<open>open(path, "rb")\<close> followed by reading in chunks of 4096 bytes until the empty chunk,
  as \<open>calculate_md5\<close> does.
\<close>

function read_chunks :: "bytes \<Rightarrow> bytes list" where
  "read_chunks c = (if take 4096 c = [] then [] else take 4096 c # read_chunks (drop 4096 c))"
  by pat_completeness auto
termination
  by (relation "measure length") auto

declare read_chunks.simps [simp del]

text \<open>
  \<open>hashlib.md5\<close> is a parameter \<open>md5\<close>: the digest of the bytes fed to the hash object.
  Feeding chunk after chunk digests the concatenation of the chunks.
\<close>

fun calculate_md5 :: "(bytes \<Rightarrow> 'd) \<Rightarrow> state \<Rightarrow> fpath \<Rightarrow> error + 'd" where
  "calculate_md5 md5 st (r, p) =
     (case get (tree_of st r) p of
        None \<Rightarrow> Inl (missing_error (tree_of st r) p)
      | Some (Dir es) \<Rightarrow> Inl IsADirectoryError
      | Some (File c) \<Rightarrow> Inr (md5 (concat (read_chunks c))))"

text \<open>Opening a path for writing and storing the bytes there.\<close>

fun write_file :: "state \<Rightarrow> fpath \<Rightarrow> bytes \<Rightarrow> result" where
  "write_file st (r, p) c =
     (if p = [] then
        (if is_dir (tree_of st r) then Raise IsADirectoryError st
         else Ok (set_tree r (Some (File c)) st))
      else
        (case get (tree_of st r) (butlast p) of
           None \<Rightarrow> Raise (missing_error (tree_of st r) p) st
         | Some (File c') \<Rightarrow> Raise NotADirectoryError st
         | Some (Dir es) \<Rightarrow>
             if last p = ''.'' \<or> is_dir (get (tree_of st r) p) then Raise IsADirectoryError st
             else Ok (set_tree r (put p (Some (File c)) (tree_of st r)) st)))"

text \<open>
  \<open>shutil.copy2(src, dst)\<close>: a destination that is a directory stands for the file of
  the same name inside it; the source is opened for reading, the destination for
  writing, and the bytes are copied.
\<close>

fun shutil_copy2 :: "state \<Rightarrow> fpath \<Rightarrow> fpath \<Rightarrow> result" where
  "shutil_copy2 st (rs, ps) dst =
     (let dst' = (if os_path_isdir st dst \<and> ps \<noteq> [] then os_path_join dst [last ps] else dst)
      in case get (tree_of st rs) ps of
           None \<Rightarrow> Raise (missing_error (tree_of st rs) ps) st
         | Some (Dir es) \<Rightarrow> Raise IsADirectoryError st
         | Some (File c) \<Rightarrow> write_file st dst' c)"

fun shutil_rmtree :: "state \<Rightarrow> fpath \<Rightarrow> result" where
  "shutil_rmtree st (r, p) =
     (case get (tree_of st r) p of
        None \<Rightarrow> Raise (missing_error (tree_of st r) p) st
      | Some (File c) \<Rightarrow> Raise NotADirectoryError st
      | Some (Dir es) \<Rightarrow> Ok (set_tree r (put p None (tree_of st r)) st))"

fun os_remove :: "state \<Rightarrow> fpath \<Rightarrow> result" where
  "os_remove st (r, p) =
     (case get (tree_of st r) p of
        None \<Rightarrow> Raise (missing_error (tree_of st r) p) st
      | Some (Dir es) \<Rightarrow> Raise IsADirectoryError st
      | Some (File c) \<Rightarrow> Ok (set_tree r (put p None (tree_of st r)) st))"

text \<open>
  \<open>os.scandir\<close> as \<open>os.walk\<close> uses it: the names of the subdirectories and of the other
  entries of a directory, each in listing order; it fails on anything but a directory.
\<close>

fun dirnames :: "(string \<times> node) list \<Rightarrow> string list" where
  "dirnames [] = []"
| "dirnames ((n, File c) # es) = dirnames es"
| "dirnames ((n, Dir ds) # es) = n # dirnames es"

fun filenames :: "(string \<times> node) list \<Rightarrow> string list" where
  "filenames [] = []"
| "filenames ((n, File c) # es) = n # filenames es"
| "filenames ((n, Dir ds) # es) = filenames es"

fun os_scandir :: "state \<Rightarrow> fpath \<Rightarrow> (string list \<times> string list) option" where
  "os_scandir st (r, p) =
     (case get (tree_of st r) p of
        Some (Dir es) \<Rightarrow> Some (dirnames es, filenames es)
      | _ \<Rightarrow> None)"

text \<open>
  \<open>for dirpath, _, filenames in os.walk(top): body\<close>. The walk is top-down and lazy: it
  keeps a stack of directories still to visit, scans the directory on top when it gets
  there (in the file system as the loop body has left it), skips it silently when the
  scan fails, hands it to the loop body, and then pushes its subdirectories. An
  exception of the body ends the loop. A walk that never ended would be \<open>None\<close>.
\<close>

partial_function (option) os_walk ::
  "(fpath \<Rightarrow> string list \<Rightarrow> state \<Rightarrow> result) \<Rightarrow> root \<Rightarrow> path list \<Rightarrow> state \<Rightarrow> result option" where
  "os_walk body r stack st =
     (case stack of
        [] \<Rightarrow> Some (Ok st)
      | dir # rest \<Rightarrow>
          (case os_scandir st (r, dir) of
             None \<Rightarrow> os_walk body r rest st
           | Some (dirs, nondirs) \<Rightarrow>
               (case body (r, dir) nondirs st of
                  Raise e st' \<Rightarrow> Some (Raise e st')
                | Ok st' \<Rightarrow> os_walk body r (map (\<lambda>d. dir @ [d]) dirs @ rest) st')))"

declare os_walk.simps [code]

text \<open>A \<open>for\<close> loop over a list: an exception of the body ends it.\<close>

fun for_each :: "('a \<Rightarrow> state \<Rightarrow> result) \<Rightarrow> 'a list \<Rightarrow> state \<Rightarrow> result" where
  "for_each body [] st = Ok st"
| "for_each body (x # xs) st =
     (case body x st of
        Raise e st' \<Rightarrow> Raise e st'
      | Ok st' \<Rightarrow> for_each body xs st')"

section \<open>sync\_folders\<close>

text \<open>Lines 52 to 58: one file of the directory the forward walk is at.\<close>

definition copy_file :: "(bytes \<Rightarrow> 'd) \<Rightarrow> fpath \<Rightarrow> fpath \<Rightarrow> string \<Rightarrow> state \<Rightarrow> result" where
  "copy_file md5 dirpath replica_dir file st =
     (let src_file = os_path_join dirpath [file];
          replica_file = os_path_join replica_dir [file];
          copy = (case shutil_copy2 st src_file replica_file of
                    Raise e st' \<Rightarrow> Raise e st'
                  | Ok st' \<Rightarrow> Ok (logging_info (FileCopied src_file replica_file) st'))
      in if \<not> os_path_exists st replica_file then copy
         else (case calculate_md5 md5 st src_file of
                 Inl e \<Rightarrow> Raise e st
               | Inr h \<Rightarrow>
                   (case calculate_md5 md5 st replica_file of
                      Inl e \<Rightarrow> Raise e st
                    | Inr h' \<Rightarrow> if h \<noteq> h' then copy else Ok st)))"

text \<open>Lines 43 to 58: the body of the first loop.\<close>

definition forward_body :: "(bytes \<Rightarrow> 'd) \<Rightarrow> fpath \<Rightarrow> string list \<Rightarrow> state \<Rightarrow> result" where
  "forward_body md5 dirpath names st =
     (let rel_path = os_path_relpath dirpath source;
          replica_dir = os_path_join replica rel_path
      in case (if \<not> os_path_exists st replica_dir then
                 (case os_makedirs st replica_dir of
                    Raise e st' \<Rightarrow> Raise e st'
                  | Ok st' \<Rightarrow> Ok (logging_info (DirCreated replica_dir) st'))
               else Ok st) of
           Raise e st' \<Rightarrow> Raise e st'
         | Ok st' \<Rightarrow> for_each (copy_file md5 dirpath replica_dir) names st')"

text \<open>Lines 71 to 77: one file of the directory the reverse walk is at.\<close>

definition remove_file :: "fpath \<Rightarrow> fpath \<Rightarrow> string \<Rightarrow> state \<Rightarrow> result" where
  "remove_file dirpath source_dir file st =
     (let replica_file = os_path_join dirpath [file];
          source_file = os_path_join source_dir [file]
      in if \<not> os_path_exists st source_file then
           (case os_remove st replica_file of
              Raise e st' \<Rightarrow> Raise e st'
            | Ok st' \<Rightarrow> Ok (logging_info (FileRemoved replica_file) st'))
         else Ok st)"

text \<open>Lines 62 to 77: the body of the second loop; \<open>continue\<close> ends it early.\<close>

definition reverse_body :: "fpath \<Rightarrow> string list \<Rightarrow> state \<Rightarrow> result" where
  "reverse_body dirpath names st =
     (let rel_path = os_path_relpath dirpath replica;
          source_dir = os_path_join source rel_path
      in if \<not> os_path_exists st source_dir then
           (case shutil_rmtree st dirpath of
              Raise e st' \<Rightarrow> Raise e st'
            | Ok st' \<Rightarrow> Ok (logging_info (DirRemoved dirpath) st'))
         else for_each (remove_file dirpath source_dir) names st)"

definition forward_pass :: "(bytes \<Rightarrow> 'd) \<Rightarrow> state \<Rightarrow> result option" where
  "forward_pass md5 st = os_walk (forward_body md5) Source [[]] st"

definition reverse_pass :: "state \<Rightarrow> result option" where
  "reverse_pass st = os_walk reverse_body Replica [[]] st"

definition sync_folders :: "(bytes \<Rightarrow> 'd) \<Rightarrow> state \<Rightarrow> result option" where
  "sync_folders md5 st =
     (case forward_pass md5 st of
        None \<Rightarrow> None
      | Some (Raise e st') \<Rightarrow> Some (Raise e st')
      | Some (Ok st') \<Rightarrow> reverse_pass st')"

section \<open>main\<close>







section \<open>What the two passes compute, tree by tree\<close>

text \<open>
  The two walks are unrolled over the directory they start from, so that their effect on
  the replica can be read off as a function of the two subtrees at the same relative
  path. These functions are not part of the program; they are proved equal to the walks
  below and are what the properties are read off from.

  \<open>forward_pure md5 p t r\<close> is the forward pass below the source directory \<open>t\<close> at
  path \<open>p\<close>, with \<open>r\<close> at the same path of the replica: the new replica subtree, the
  lines logged, and the exception that stopped it, if any.
\<close>

type_synonym listing = "(string \<times> node) list"

text \<open>
  \<open>rel p\<close> is \<open>os.path.relpath\<close> of the directory at \<open>p\<close> below the root of its
  walk: \<open>''.''\<close> for the root itself.
\<close>

definition rel :: "path \<Rightarrow> path" where
  "rel p = (if p = [] then [''.''] else p)"

fun listing_of :: "node option \<Rightarrow> listing" where
  "listing_of (Some (Dir es)) = es"
| "listing_of _ = []"

fun copy_files_pure ::
  "(bytes \<Rightarrow> 'd) \<Rightarrow> path \<Rightarrow> listing \<Rightarrow> listing \<Rightarrow> listing \<times> event list \<times> error option" where
  "copy_files_pure md5 p [] res = (res, [], None)"
| "copy_files_pure md5 p ((f, Dir ds) # ses) res = copy_files_pure md5 p ses res"
| "copy_files_pure md5 p ((f, File c) # ses) res =
     (case map_of res f of
        Some (Dir ds) \<Rightarrow> (res, [], Some IsADirectoryError)
      | Some (File c') \<Rightarrow>
          if md5 c \<noteq> md5 c' then
            (case copy_files_pure md5 p ses (AList.update f (File c) res) of
               (res', evs, e) \<Rightarrow>
                 (res', FileCopied (Source, p @ [f]) (Replica, rel p @ [f]) # evs, e))
          else copy_files_pure md5 p ses res
      | None \<Rightarrow>
          (case copy_files_pure md5 p ses (AList.update f (File c) res) of
             (res', evs, e) \<Rightarrow>
               (res', FileCopied (Source, p @ [f]) (Replica, rel p @ [f]) # evs, e)))"

fun forward_pure ::
  "(bytes \<Rightarrow> 'd) \<Rightarrow> path \<Rightarrow> node \<Rightarrow> node option \<Rightarrow> node option \<times> event list \<times> error option"
and forward_children ::
  "(bytes \<Rightarrow> 'd) \<Rightarrow> path \<Rightarrow> listing \<Rightarrow> listing \<Rightarrow> listing \<times> event list \<times> error option" where
  "forward_pure md5 p (File c) r = (r, [], None)"
| "forward_pure md5 p (Dir ses) r =
     (if is_file r then
        (r, [], if p = [] \<or> ses \<noteq> [] then Some NotADirectoryError else None)
      else
        (case copy_files_pure md5 p ses (listing_of r) of
           (res1, evs1, Some e) \<Rightarrow>
             (Some (Dir res1),
              (if r = None then [DirCreated (Replica, rel p)] else []) @ evs1, Some e)
         | (res1, evs1, None) \<Rightarrow>
             (case forward_children md5 p ses res1 of
                (res2, evs2, e) \<Rightarrow>
                  (Some (Dir res2),
                   (if r = None then [DirCreated (Replica, rel p)] else []) @ evs1 @ evs2, e))))"
| "forward_children md5 p [] res = (res, [], None)"
| "forward_children md5 p ((n, File c) # ses) res = forward_children md5 p ses res"
| "forward_children md5 p ((n, Dir ds) # ses) res =
     (case forward_pure md5 (p @ [n]) (Dir ds) (map_of res n) of
        (r', evs, Some e) \<Rightarrow> (set_entry n r' res, evs, Some e)
      | (r', evs, None) \<Rightarrow>
          (case forward_children md5 p ses (set_entry n r' res) of
             (res', evs', e) \<Rightarrow> (res', evs @ evs', e)))"

text \<open>
  \<open>reverse_pure p t s\<close> is the reverse pass below the replica directory \<open>t\<close> at path
  \<open>p\<close>, with \<open>s\<close> what \<open>os.path.join(source, rel_path)\<close> resolves to.
\<close>

fun remove_files_pure :: "path \<Rightarrow> node \<Rightarrow> listing \<Rightarrow> listing \<Rightarrow> listing \<times> event list" where
  "remove_files_pure p sn [] cur = (cur, [])"
| "remove_files_pure p sn ((f, Dir ds) # es) cur = remove_files_pure p sn es cur"
| "remove_files_pure p sn ((f, File c) # es) cur =
     (if get (Some sn) [f] = None then
        (case remove_files_pure p sn es (AList.delete f cur) of
           (cur', evs) \<Rightarrow> (cur', FileRemoved (Replica, p @ [f]) # evs))
      else remove_files_pure p sn es cur)"

fun reverse_pure :: "path \<Rightarrow> node \<Rightarrow> node option \<Rightarrow> node option \<times> event list"
and reverse_children :: "path \<Rightarrow> node \<Rightarrow> listing \<Rightarrow> listing \<Rightarrow> listing \<times> event list" where
  "reverse_pure p (File c) s = (Some (File c), [])"
| "reverse_pure p (Dir res) s =
     (case s of
        None \<Rightarrow> (None, [DirRemoved (Replica, p)])
      | Some sn \<Rightarrow>
          (case remove_files_pure p sn res res of
             (res1, evs1) \<Rightarrow>
               (case reverse_children p sn res res1 of
                  (res2, evs2) \<Rightarrow> (Some (Dir res2), evs1 @ evs2))))"
| "reverse_children p sn [] cur = (cur, [])"
| "reverse_children p sn ((n, File c) # es) cur = reverse_children p sn es cur"
| "reverse_children p sn ((n, Dir ds) # es) cur =
     (case reverse_pure (p @ [n]) (Dir ds) (get (Some sn) [n]) of
        (r', evs) \<Rightarrow>
          (case reverse_children p sn es (set_entry n r' cur) of
             (cur', evs') \<Rightarrow> (cur', evs @ evs')))"

text \<open>
  A well-formed tree: the names of a listing are pairwise distinct and none of them is
  \<open>''.''\<close>, as in any directory a file system hands out.
\<close>

fun wf_node :: "node \<Rightarrow> bool"
and wf_entries :: "listing \<Rightarrow> bool" where
  "wf_node (File c) = True"
| "wf_node (Dir es) = (distinct (map fst es) \<and> wf_entries es)"
| "wf_entries [] = True"
| "wf_entries ((n, t) # es) = (n \<noteq> ''.'' \<and> wf_node t \<and> wf_entries es)"


text \<open>\<open>addr r p\<close>: every proper prefix of \<open>p\<close> is a directory of \<open>r\<close>.\<close>

fun addr :: "node option \<Rightarrow> path \<Rightarrow> bool" where
  "addr r [] = True"
| "addr (Some (Dir es)) (n # p) = addr (map_of es n) p"
| "addr _ (n # p) = False"

text \<open>
  The state after the replica subtree at \<open>p\<close> has become \<open>r\<close> and the lines \<open>evs\<close>
  have been logged; a result from an optional exception; and the rest of a walk after a
  step that may have raised.
\<close>

definition upd :: "state \<Rightarrow> path \<Rightarrow> node option \<Rightarrow> event list \<Rightarrow> state" where
  "upd st p r evs = st\<lparr>rep := put p r (rep st), log := log st @ evs\<rparr>"

fun finish :: "error option \<Rightarrow> state \<Rightarrow> result" where
  "finish None st = Ok st"
| "finish (Some e) st = Raise e st"

fun continue_with :: "(state \<Rightarrow> result option) \<Rightarrow> error option \<Rightarrow> state \<Rightarrow> result option" where
  "continue_with k None st = k st"
| "continue_with k (Some e) st = Some (Raise e st)"

text \<open>The lines of the forward pass, and the lines of the reverse pass.\<close>

fun creates :: "event \<Rightarrow> bool" where
  "creates (DirCreated p) = True"
| "creates (FileCopied p q) = True"
| "creates _ = False"

fun removes :: "event \<Rightarrow> bool" where
  "removes (DirRemoved p) = True"
| "removes (FileRemoved p) = True"
| "removes _ = False"

text \<open>
  \<open>only_adds Q st st'\<close>: from \<open>st\<close> to \<open>st'\<close> the source tree has not changed and the
  log has grown by lines that satisfy \<open>Q\<close>.
\<close>

definition only_adds :: "(event \<Rightarrow> bool) \<Rightarrow> state \<Rightarrow> state \<Rightarrow> bool" where
  "only_adds Q st st' = (src st' = src st \<and> (\<exists>evs. log st' = log st @ evs \<and> list_all Q evs))"

fun wf_opt :: "node option \<Rightarrow> bool" where
  "wf_opt None = True"
| "wf_opt (Some t) = wf_node t"

text \<open>The whole of \<open>sync_folders\<close>, read off the two trees.\<close>

definition sync_pure :: "(bytes \<Rightarrow> 'd) \<Rightarrow> state \<Rightarrow> result" where
  "sync_pure md5 st =
     (case (case src st of
              None \<Rightarrow> (rep st, [], None)
            | Some t \<Rightarrow> forward_pure md5 [] t (rep st)) of
        (r1, evs1, Some e) \<Rightarrow> Raise e (st\<lparr>rep := r1, log := log st @ evs1\<rparr>)
      | (r1, evs1, None) \<Rightarrow>
          (case (case r1 of
                   None \<Rightarrow> (None, [])
                 | Some t1 \<Rightarrow> reverse_pure [] t1 (get (src st) [''.''])) of
             (r2, evs2) \<Rightarrow> Ok (st\<lparr>rep := r2, log := log st @ evs1 @ evs2\<rparr>)))"

text \<open>
  \<open>in_sync md5 strict t r\<close>: the replica subtree \<open>r\<close> mirrors the source subtree
  \<open>t\<close> as far as \<open>sync_folders\<close> can tell: every source entry is there, files with
  the same digest, and the replica has no name the source lacks. Without \<open>strict\<close> a
  regular file may stand where the source has an empty directory.
\<close>

fun in_sync :: "(bytes \<Rightarrow> 'd) \<Rightarrow> bool \<Rightarrow> node \<Rightarrow> node \<Rightarrow> bool"
and in_sync_entries :: "(bytes \<Rightarrow> 'd) \<Rightarrow> bool \<Rightarrow> listing \<Rightarrow> listing \<Rightarrow> bool" where
  "in_sync md5 strict (File c) (File c') = (md5 c = md5 c')"
| "in_sync md5 strict (File c) (Dir res) = False"
| "in_sync md5 strict (Dir ses) (File c') = (\<not> strict \<and> ses = [])"
| "in_sync md5 strict (Dir ses) (Dir res) =
     (in_sync_entries md5 strict ses res \<and> list_all (\<lambda>(n, r). map_of ses n \<noteq> None) res)"
| "in_sync_entries md5 strict [] res = True"
| "in_sync_entries md5 strict ((n, t) # ses) res =
     ((case map_of res n of None \<Rightarrow> False | Some r \<Rightarrow> in_sync md5 strict t r) \<and>
      in_sync_entries md5 strict ses res)"

text \<open>
  \<open>dirs_free t r\<close>: the replica has no regular file where the source has an empty
  directory.
\<close>

fun dirs_free :: "node \<Rightarrow> node option \<Rightarrow> bool"
and dirs_free_entries :: "listing \<Rightarrow> listing \<Rightarrow> bool" where
  "dirs_free (File c) r = True"
| "dirs_free (Dir ses) None = True"
| "dirs_free (Dir ses) (Some (File c)) = (ses \<noteq> [])"
| "dirs_free (Dir ses) (Some (Dir res)) = dirs_free_entries ses res"
| "dirs_free_entries [] res = True"
| "dirs_free_entries ((n, t) # ses) res =
     (dirs_free t (map_of res n) \<and> dirs_free_entries ses res)"

text \<open>The replica subtree after the reverse pass has gone over what the forward pass left.\<close>

fun settle :: "path \<Rightarrow> node \<Rightarrow> node option \<Rightarrow> node option" where
  "settle p t (Some (Dir d)) = fst (reverse_pure p (Dir d) (Some t))"
| "settle p t r = r"

text \<open>The states that one more call leaves alone.\<close>

fun stable :: "(bytes \<Rightarrow> 'd) \<Rightarrow> node option \<Rightarrow> node option \<Rightarrow> bool" where
  "stable md5 (Some (Dir ses)) (Some (Dir res)) = in_sync md5 False (Dir ses) (Dir res)"
| "stable md5 (Some (Dir ses)) r = False"
| "stable md5 s r = (\<not> is_dir r)"

section \<open>Example states\<close>

text \<open>The scenario of the specification: an outdated file and an orphan in the replica.\<close>

definition scenario :: state where
  "scenario =
     \<lparr>src = Some (Dir [(''docs'', Dir [(''readme.txt'', File ''v1'')]), (''images'', Dir [])]),
      rep = Some (Dir [(''docs'', Dir [(''readme.txt'', File ''v0'')]), (''images'', Dir []),
                       (''old.log'', File ''x'')]),
      log = []\<rparr>"

definition scenario_synced :: state where
  "scenario_synced =
     \<lparr>src = Some (Dir [(''docs'', Dir [(''readme.txt'', File ''v1'')]), (''images'', Dir [])]),
      rep = Some (Dir [(''docs'', Dir [(''readme.txt'', File ''v1'')]), (''images'', Dir [])]),
      log = [FileCopied (Source, [''docs'', ''readme.txt'']) (Replica, [''docs'', ''readme.txt'']),
             FileRemoved (Replica, [''old.log''])]\<rparr>"





section \<open>Properties\<close>

lemma get_None [simp]: "get None p = None"
  by (cases p) simp_all

lemma get_File: "get (Some (File c)) p = (if p = [] then Some (File c) else None)"
  by (cases p) simp_all

lemma get_append: "get r (p @ q) = get (get r p) q"
proof (induction p arbitrary: r)
  case Nil
  then show ?case by simp
next
  case (Cons n p)
  show ?case
  proof (cases r)
    case None
    then show ?thesis by simp
  next
    case (Some t)
    then show ?thesis using Cons by (cases t) simp_all
  qed
qed

lemma map_of_set_entry: "map_of (set_entry n v es) m = (if m = n then v else map_of es m)"
  by (cases v) (simp_all add: set_entry_def AList.update_conv' AList.delete_conv')

lemma set_entry_same: "set_entry n (map_of es n) es = es"
proof (cases "map_of es n")
  case None
  then have "n \<notin> fst ` set es" by (simp add: map_of_eq_None_iff)
  then show ?thesis using None by (simp add: set_entry_def)
next
  case (Some x)
  then show ?thesis by (simp add: set_entry_def AList.update_triv)
qed

lemma put_get_same: "put p (get r p) r = r"
proof (induction p arbitrary: r)
  case Nil
  then show ?case by simp
next
  case (Cons n p)
  show ?case
  proof (cases r)
    case None
    then show ?thesis by simp
  next
    case (Some t)
    then show ?thesis using Cons by (cases t) (simp_all add: set_entry_same)
  qed
qed

lemma put_snoc:
  "get r p = Some (Dir es) \<Longrightarrow> n \<noteq> ''.'' \<Longrightarrow>
   put (p @ [n]) v r = put p (Some (Dir (set_entry n v es))) r"
proof (induction p arbitrary: r)
  case Nil
  then show ?case by simp
next
  case (Cons m p)
  then obtain es0 where r: "r = Some (Dir es0)"
    by (cases r; cases "the r") auto
  show ?case using Cons r by (auto split: if_splits)
qed

lemma addr_get: "get r p \<noteq> None \<Longrightarrow> ''.'' \<notin> set p \<Longrightarrow> addr r p"
proof (induction p arbitrary: r)
  case Nil
  then show ?case by simp
next
  case (Cons m p)
  then obtain es0 where r: "r = Some (Dir es0)"
    by (cases r; cases "the r") auto
  show ?case using Cons r by (auto split: if_splits)
qed

lemma addr_snoc: "get r p = Some (Dir es) \<Longrightarrow> ''.'' \<notin> set p \<Longrightarrow> addr r (p @ [n])"
proof (induction p arbitrary: r)
  case Nil
  then show ?case by simp
next
  case (Cons m p)
  then obtain es0 where r: "r = Some (Dir es0)"
    by (cases r; cases "the r") auto
  show ?case using Cons r by (auto split: if_splits)
qed

lemma put_Some: "p \<noteq> [] \<Longrightarrow> ''.'' \<notin> set p \<Longrightarrow> put p v (Some t) \<noteq> None"
  by (cases p; cases t) (auto)

lemma get_put: "addr r p \<Longrightarrow> ''.'' \<notin> set p \<Longrightarrow> get (put p v r) p = v"
proof (induction p arbitrary: r)
  case Nil
  then show ?case by simp
next
  case (Cons m p)
  then obtain es0 where r: "r = Some (Dir es0)"
    by (cases r; cases "the r") auto
  show ?case using Cons r by (auto simp: map_of_set_entry)
qed

lemma update_twice: "AList.update n x (AList.update n y es) = AList.update n x es"
  by (induction es) auto

lemma delete_update: "AList.delete n (AList.update n y es) = AList.delete n es"
  by (induction es) (auto simp: AList.delete_eq)

lemma set_entry_twice: "w \<noteq> None \<Longrightarrow> set_entry n v (set_entry n w es) = set_entry n v es"
  by (cases v; cases w) (auto simp: set_entry_def update_twice delete_update)

lemma addr_None: "addr None p \<longleftrightarrow> p = []"
  by (cases p) auto

lemma addr_map_of: "addr (map_of es m) p \<Longrightarrow> p \<noteq> [] \<Longrightarrow> map_of es m \<noteq> None"
  using addr_None by (cases "map_of es m") auto

lemma put_put:
  "addr r p \<Longrightarrow> ''.'' \<notin> set p \<Longrightarrow> w \<noteq> None \<Longrightarrow> put p v (put p w r) = put p v r"
proof (induction p arbitrary: r)
  case Nil
  then show ?case by simp
next
  case (Cons m p)
  then obtain es0 where r: "r = Some (Dir es0)"
    by (cases r; cases "the r") auto
  have a: "addr (map_of es0 m) p" using Cons r by simp
  have "put p w (map_of es0 m) \<noteq> None"
  proof (cases p)
    case Nil
    then show ?thesis using Cons by simp
  next
    case (Cons k q)
    then obtain x where "map_of es0 m = Some x" using a addr_map_of by fastforce
    then show ?thesis using put_Some Cons Cons.prems Cons by (metis list.distinct(1) list.set_intros(2))
  qed
  then show ?case using Cons r a by (auto simp: map_of_set_entry set_entry_twice)
qed

lemma addr_put: "addr r p \<Longrightarrow> ''.'' \<notin> set p \<Longrightarrow> addr (put p v r) p"
proof (induction p arbitrary: r)
  case Nil
  then show ?case by simp
next
  case (Cons m p)
  then obtain es0 where r: "r = Some (Dir es0)"
    by (cases r; cases "the r") auto
  show ?case using Cons r by (auto simp: map_of_set_entry)
qed

lemma get_rel: "is_dir r \<Longrightarrow> get r (rel p @ q) = get r (p @ q)"
  by (cases r; cases "the r") (auto simp: rel_def)

lemma put_rel: "is_dir r \<Longrightarrow> put (rel p @ q) v r = put (p @ q) v r"
  by (cases r; cases "the r") (auto simp: rel_def)

lemma concat_read_chunks [simp]: "concat (read_chunks c) = c"
proof (induction c rule: read_chunks.induct)
  case (1 c)
  show ?case
  proof (cases "take 4096 c = []")
    case True
    then have "c = []" by (cases c) auto
    then show ?thesis by (subst read_chunks.simps) simp
  next
    case False
    then show ?thesis using 1 by (subst read_chunks.simps) simp
  qed
qed


lemma get_rel_dir: "get r p = Some (Dir res) \<Longrightarrow> get r (rel p @ q) = get r (p @ q)"
  by (cases "p = []") (simp_all add: rel_def)

lemma get_rel_dir0: "get r p = Some (Dir res) \<Longrightarrow> get r (rel p) = Some (Dir res)"
  using get_rel_dir [of r p res "[]"] by simp

lemma put_rel_dir: "get r p = Some (Dir res) \<Longrightarrow> put (rel p @ q) v r = put (p @ q) v r"
  by (cases "p = []") (simp_all add: rel_def)

lemma put_rel_dir0: "get r p = Some (Dir res) \<Longrightarrow> put (rel p) v r = put p v r"
  using put_rel_dir [of r p res "[]"] by simp

lemma src_upd [simp]: "src (upd st p r evs) = src st"
  by (simp add: upd_def)

lemma rep_upd [simp]: "rep (upd st p r evs) = put p r (rep st)"
  by (simp add: upd_def)

lemma log_upd [simp]: "log (upd st p r evs) = log st @ evs"
  by (simp add: upd_def)

lemma upd_upd:
  "addr (rep st) p \<Longrightarrow> ''.'' \<notin> set p \<Longrightarrow> a \<noteq> None \<Longrightarrow>
   upd (upd st p a evs) p b evs' = upd st p b (evs @ evs')"
  by (simp add: upd_def put_put)

lemma upd_same: "get (rep st) p = r \<Longrightarrow> upd st p r [] = st"
  by (auto simp: upd_def put_get_same)

lemma copy_file_pure:
  assumes "''.'' \<notin> set p" "f \<noteq> ''.''" "get (src st) (p @ [f]) = Some (File c)"
    "get (rep st) p = Some (Dir res)"
  shows "copy_file md5 (Source, p) (Replica, rel p) f st =
     (case map_of res f of
        Some (Dir ds) \<Rightarrow> Raise IsADirectoryError st
      | Some (File c') \<Rightarrow>
          if md5 c \<noteq> md5 c' then
            Ok (upd st p (Some (Dir (AList.update f (File c) res)))
                  [FileCopied (Source, p @ [f]) (Replica, rel p @ [f])])
          else Ok st
      | None \<Rightarrow>
          Ok (upd st p (Some (Dir (AList.update f (File c) res)))
                [FileCopied (Source, p @ [f]) (Replica, rel p @ [f])]))"
proof -
  have g: "get (rep st) (rel p @ [f]) = map_of res f"
    using assms by (simp add: get_rel_dir0 get_append)
  have b: "butlast (rel p @ [f]) = rel p" "last (rel p @ [f]) = f" "rel p @ [f] \<noteq> []"
    by simp_all
  have w: "\<not> is_dir (map_of res f) \<Longrightarrow>
      shutil_copy2 st (Source, p @ [f]) (Replica, rel p @ [f]) =
      Ok (st\<lparr>rep := put p (Some (Dir (AList.update f (File c) res))) (rep st)\<rparr>)"
    using assms g by (simp add: get_rel_dir0 put_rel_dir put_rel_dir0 put_snoc set_entry_def)
  have e: "os_path_exists st (Replica, rel p @ [f]) = (map_of res f \<noteq> None)"
    using g by simp
  have h1: "calculate_md5 md5 st (Source, p @ [f]) = Inr (md5 c)"
    using assms(3) by simp
  have h2: "calculate_md5 md5 st (Replica, rel p @ [f]) =
      (case map_of res f of None \<Rightarrow> Inl (missing_error (rep st) (rel p @ [f]))
       | Some (Dir ds) \<Rightarrow> Inl IsADirectoryError
       | Some (File c') \<Rightarrow> Inr (md5 c'))"
    using g by (simp split: option.splits node.splits)
  note defs = copy_file_def upd_def logging_info_def Let_def os_path_join.simps
  note dels = shutil_copy2.simps calculate_md5.simps os_path_exists.simps
  show ?thesis
  proof (cases "map_of res f")
    case None
    then show ?thesis using w by (simp add: defs e del: dels)
  next
    case (Some t)
    show ?thesis
    proof (cases t)
      case (File c')
      then show ?thesis using Some w by (simp add: defs e h1 h2 del: dels)
    next
      case (Dir ds)
      then show ?thesis using Some by (simp add: defs e h1 h2 del: dels)
    qed
  qed
qed



lemma copy_loop_pure:
  assumes "''.'' \<notin> set p" "get (rep st) p = Some (Dir res)"
    "\<forall>(n, t) \<in> set ses. n \<noteq> ''.'' \<and> get (src st) (p @ [n]) = Some t"
  shows "for_each (copy_file md5 (Source, p) (Replica, rel p)) (filenames ses) st =
     (case copy_files_pure md5 p ses res of
        (res', evs, eo) \<Rightarrow> finish eo (upd st p (Some (Dir res')) evs))"
  using assms
proof (induction ses arbitrary: st res)
  case Nil
  then show ?case by (simp add: upd_same)
next
  case (Cons a ses)
  obtain f t where a: "a = (f, t)" by (cases a)
  have ad: "addr (rep st) p" using Cons.prems addr_get by fastforce
  show ?case
  proof (cases t)
    case (Dir ds)
    then show ?thesis using Cons a by simp
  next
    case (File c)
    have cf: "copy_file md5 (Source, p) (Replica, rel p) f st =
      (case map_of res f of
        Some (Dir ds) \<Rightarrow> Raise IsADirectoryError st
      | Some (File c') \<Rightarrow>
          if md5 c \<noteq> md5 c' then
            Ok (upd st p (Some (Dir (AList.update f (File c) res)))
                  [FileCopied (Source, p @ [f]) (Replica, rel p @ [f])])
          else Ok st
      | None \<Rightarrow>
          Ok (upd st p (Some (Dir (AList.update f (File c) res)))
                [FileCopied (Source, p @ [f]) (Replica, rel p @ [f])]))"
      using Cons.prems a File by (intro copy_file_pure) auto
    let ?st1 = "upd st p (Some (Dir (AList.update f (File c) res)))
                  [FileCopied (Source, p @ [f]) (Replica, rel p @ [f])]"
    have ih1: "for_each (copy_file md5 (Source, p) (Replica, rel p)) (filenames ses) ?st1 =
      (case copy_files_pure md5 p ses (AList.update f (File c) res) of
        (res', evs, eo) \<Rightarrow> finish eo (upd ?st1 p (Some (Dir res')) evs))"
      using Cons.prems ad by (intro Cons.IH) (auto simp: get_put)
    have ih0: "for_each (copy_file md5 (Source, p) (Replica, rel p)) (filenames ses) st =
      (case copy_files_pure md5 p ses res of
        (res', evs, eo) \<Rightarrow> finish eo (upd st p (Some (Dir res')) evs))"
      using Cons.prems by (intro Cons.IH) auto
    show ?thesis
    proof (cases "map_of res f")
      case None
      then show ?thesis using a File cf ih1 Cons.prems(1) ad
        by (simp add: upd_upd split: prod.splits)
    next
      case (Some u)
      then show ?thesis using a File cf ih1 ih0 Cons.prems(1,2) ad
        by (cases u) (simp_all add: upd_upd upd_same split: prod.splits)
    qed
  qed
qed

lemma makedirs_root:
  "rep st = None \<Longrightarrow> os_makedirs st (Replica, [''.'']) = Ok (st\<lparr>rep := Some (Dir [])\<rparr>)"
  by (simp add: os_makedirs.simps)

lemma makedirs_root_file:
  "rep st = Some (File c) \<Longrightarrow> os_makedirs st (Replica, [''.'']) = Raise NotADirectoryError st"
  by (simp add: os_makedirs.simps)

lemma addr_butlast: "addr r p \<Longrightarrow> p \<noteq> [] \<Longrightarrow> ''.'' \<notin> set p \<Longrightarrow> is_dir (get r (butlast p))"
proof (induction p arbitrary: r)
  case Nil
  then show ?case by simp
next
  case (Cons m p)
  then obtain es0 where r: "r = Some (Dir es0)"
    by (cases r; cases "the r") auto
  show ?case using Cons r by (cases "p = []") auto
qed

lemma makedirs_child:
  assumes "p \<noteq> []" "''.'' \<notin> set p" "addr (rep st) p" "get (rep st) p = None"
  shows "os_makedirs st (Replica, p) = Ok (st\<lparr>rep := put p (Some (Dir [])) (rep st)\<rparr>)"
proof -
  have "is_dir (get (rep st) (butlast p))" using assms addr_butlast by blast
  then obtain es where "get (rep st) (butlast p) = Some (Dir es)"
    by (cases "get (rep st) (butlast p)"; cases "the (get (rep st) (butlast p))") auto
  moreover have "last p \<noteq> ''.''" using assms by (metis last_in_set)
  ultimately show ?thesis using assms by (simp add: os_makedirs.simps)
qed

lemma makedirs_under_file:
  assumes "get (rep st) p = Some (File c)"
  shows "os_makedirs st (Replica, p @ [d]) = Raise NotADirectoryError st"
  using assms by (simp add: os_makedirs.simps)

lemma relpath_source [simp]: "os_path_relpath (Source, p) source = rel p"
  by (simp add: source_def rel_def)

lemma relpath_replica [simp]: "os_path_relpath (Replica, p) replica = rel p"
  by (simp add: replica_def rel_def)

lemma join_replica [simp]: "os_path_join replica q = (Replica, q)"
  by (simp add: replica_def)

lemma join_source [simp]: "os_path_join source q = (Source, q)"
  by (simp add: source_def)

lemma forward_body_pure:
  assumes "''.'' \<notin> set p" "addr (rep st) p" "\<not> is_file (get (rep st) p)"
    "\<forall>(n, t) \<in> set ses. n \<noteq> ''.'' \<and> get (src st) (p @ [n]) = Some t"
  shows "forward_body md5 (Source, p) (filenames ses) st =
     (case copy_files_pure md5 p ses (listing_of (get (rep st) p)) of
        (res1, evs1, eo) \<Rightarrow>
          finish eo (upd st p (Some (Dir res1))
            ((if get (rep st) p = None then [DirCreated (Replica, rel p)] else []) @ evs1)))"
proof (cases "get (rep st) p")
  case None
  let ?st1 = "upd st p (Some (Dir [])) [DirCreated (Replica, rel p)]"
  have ex: "\<not> os_path_exists st (Replica, rel p)"
    using None by (cases "p = []") (simp_all add: rel_def)
  have mk: "os_makedirs st (Replica, rel p) = Ok (st\<lparr>rep := put p (Some (Dir [])) (rep st)\<rparr>)"
  proof (cases "p = []")
    case True
    then show ?thesis using None makedirs_root by (simp add: rel_def)
  next
    case False
    then show ?thesis using None assms makedirs_child by (simp add: rel_def)
  qed
  have g1: "get (rep ?st1) p = Some (Dir [])" using assms by (simp add: get_put)
  have lg: "logging_info (DirCreated (Replica, rel p))
      (st\<lparr>rep := put p (Some (Dir [])) (rep st)\<rparr>) = ?st1"
    by (simp add: upd_def logging_info_def)
  have "for_each (copy_file md5 (Source, p) (Replica, rel p)) (filenames ses) ?st1 =
     (case copy_files_pure md5 p ses [] of
        (res', evs, eo) \<Rightarrow> finish eo (upd ?st1 p (Some (Dir res')) evs))"
    using assms g1 by (intro copy_loop_pure) auto
  then show ?thesis using None ex mk assms(1,2)
    by (simp add: forward_body_def Let_def upd_upd lg
        del: os_path_exists.simps split: prod.splits)
next
  case (Some t)
  then obtain res where t: "t = Dir res" using assms by (cases t) auto
  have ex: "os_path_exists st (Replica, rel p)"
    using Some t by (simp add: get_rel_dir0)
  have "for_each (copy_file md5 (Source, p) (Replica, rel p)) (filenames ses) st =
     (case copy_files_pure md5 p ses res of
        (res', evs, eo) \<Rightarrow> finish eo (upd st p (Some (Dir res')) evs))"
    using assms Some t by (intro copy_loop_pure) auto
  then show ?thesis using Some t ex
    by (simp add: forward_body_def Let_def del: os_path_exists.simps split: prod.splits)
qed


lemma filenames_mem: "f \<in> set (filenames ses) \<Longrightarrow> \<exists>c. (f, File c) \<in> set ses"
  by (induction ses rule: filenames.induct) auto

lemma dirnames_mem: "d \<in> set (dirnames ses) \<Longrightarrow> \<exists>ds. (d, Dir ds) \<in> set ses"
  by (induction ses rule: dirnames.induct) auto

lemma no_names: "filenames ses = [] \<Longrightarrow> dirnames ses = [] \<Longrightarrow> ses = []"
  by (induction ses rule: filenames.induct) auto

lemma forward_body_file_root:
  "rep st = Some (File c) \<Longrightarrow> forward_body md5 (Source, []) names st = Raise NotADirectoryError st"
  by (simp add: forward_body_def rel_def makedirs_root_file)

lemma forward_body_under_file:
  "get (rep st) p = Some (File c) \<Longrightarrow>
   forward_body md5 (Source, p @ [d]) names st = Raise NotADirectoryError st"
  by (simp add: forward_body_def rel_def makedirs_under_file get_append)

lemma forward_body_file:
  assumes "p \<noteq> []" "get (rep st) p = Some (File c')"
    "\<forall>(n, t) \<in> set ses. get (src st) (p @ [n]) = Some t"
  shows "forward_body md5 (Source, p) (filenames ses) st =
     (if filenames ses = [] then Ok st else Raise NotADirectoryError st)"
proof (cases "filenames ses")
  case Nil
  then show ?thesis using assms by (simp add: forward_body_def rel_def)
next
  case (Cons f fs)
  then obtain c where "(f, File c) \<in> set ses" using filenames_mem [of f ses] by auto
  then have "get (src st) (p @ [f]) = Some (File c)" using assms by auto
  then have "copy_file md5 (Source, p) (Replica, p) f st = Raise NotADirectoryError st"
    using assms by (simp add: copy_file_def get_append)
  then show ?thesis using assms Cons by (simp add: forward_body_def rel_def)
qed

lemma walk_skip:
  "\<forall>q \<in> set qs. os_scandir st (r, q) = None \<Longrightarrow>
   os_walk body r (qs @ rest) st = os_walk body r rest st"
proof (induction qs)
  case Nil
  then show ?case by simp
next
  case (Cons q qs)
  then show ?case by (subst os_walk.simps) simp
qed



lemma wf_entries_mem: "wf_entries es \<Longrightarrow> (n, t) \<in> set es \<Longrightarrow> n \<noteq> ''.'' \<and> wf_node t"
  by (induction es) auto

lemma wf_dir_children:
  assumes "wf_node (Dir es)" "get r p = Some (Dir es)"
  shows "\<forall>(n, t) \<in> set es. n \<noteq> ''.'' \<and> wf_node t \<and> get r (p @ [n]) = Some t"
  using assms wf_entries_mem by (auto simp: get_append)

lemma scandir_dir:
  "get (tree_of st r) p = Some (Dir es) \<Longrightarrow> os_scandir st (r, p) = Some (dirnames es, filenames es)"
  by simp

lemma forward_walk_aux:
  "\<forall>st rest. wf_node t \<longrightarrow> ''.'' \<notin> set p \<longrightarrow> get (src st) p = Some t \<longrightarrow> addr (rep st) p \<longrightarrow>
      get (rep st) p = r \<longrightarrow>
      os_walk (forward_body md5) Source (p # rest) st =
      (case forward_pure md5 p t r of
         (r', evs, eo) \<Rightarrow>
           continue_with (os_walk (forward_body md5) Source rest) eo (upd st p r' evs))"
  "\<forall>st rest. ''.'' \<notin> set p \<longrightarrow>
      (\<forall>(n, t) \<in> set ses. n \<noteq> ''.'' \<and> wf_node t \<and> get (src st) (p @ [n]) = Some t) \<longrightarrow>
      get (rep st) p = Some (Dir res) \<longrightarrow>
      os_walk (forward_body md5) Source (map (\<lambda>d. p @ [d]) (dirnames ses) @ rest) st =
      (case forward_children md5 p ses res of
         (res', evs, eo) \<Rightarrow>
           continue_with (os_walk (forward_body md5) Source rest) eo
             (upd st p (Some (Dir res')) evs))"
proof (induction md5 p t r and md5 p ses res rule: forward_pure_forward_children.induct)
  case (1 md5 p c r)
  show ?case
  proof (intro allI impI)
    fix st :: state and rest
    assume "get (src st) p = Some (File c)" "get (rep st) p = r"
    then show "os_walk (forward_body md5) Source (p # rest) st =
      (case forward_pure md5 p (File c) r of
         (r', evs, eo) \<Rightarrow>
           continue_with (os_walk (forward_body md5) Source rest) eo (upd st p r' evs))"
      by (subst os_walk.simps) (simp add: upd_same)
  qed
next
  case (2 md5 p ses r)
  show ?case
  proof (intro allI impI)
    fix st :: state and rest
    let ?W = "os_walk (forward_body md5) Source"
    assume wf: "wf_node (Dir ses)" and nd: "''.'' \<notin> set p"
      and gs: "get (src st) p = Some (Dir ses)" and ad: "addr (rep st) p"
      and gr: "get (rep st) p = r"
    have kids: "\<forall>(n, t) \<in> set ses. n \<noteq> ''.'' \<and> wf_node t \<and> get (src st) (p @ [n]) = Some t"
      using wf gs by (rule wf_dir_children)
    have kids': "\<forall>(n, t) \<in> set ses. n \<noteq> ''.'' \<and> get (src st) (p @ [n]) = Some t"
      using kids by auto
    have kids'': "\<forall>(n, t) \<in> set ses. get (src st) (p @ [n]) = Some t"
      using kids by auto
    have step: "?W (p # rest) st =
      (case forward_body md5 (Source, p) (filenames ses) st of
         Raise e st' \<Rightarrow> Some (Raise e st')
       | Ok st' \<Rightarrow> ?W (map (\<lambda>d. p @ [d]) (dirnames ses) @ rest) st')"
      using gs by (subst os_walk.simps) simp
    show "?W (p # rest) st =
      (case forward_pure md5 p (Dir ses) r of
         (r', evs, eo) \<Rightarrow> continue_with (?W rest) eo (upd st p r' evs))"
    proof (cases "is_file r")
      case True
      then obtain c' where r: "r = Some (File c')"
        by (cases r; cases "the r") auto
      have same: "upd st p r [] = st" using gr by (rule upd_same)
      show ?thesis
      proof (cases "p = []")
        case True
        then have "rep st = Some (File c')" using gr r by simp
        then have "forward_body md5 (Source, p) (filenames ses) st = Raise NotADirectoryError st"
          using True forward_body_file_root by simp
        then show ?thesis using step True r same by simp
      next
        case False
        have fb: "forward_body md5 (Source, p) (filenames ses) st =
            (if filenames ses = [] then Ok st else Raise NotADirectoryError st)"
          using False gr r kids'' by (intro forward_body_file) auto
        show ?thesis
        proof (cases "filenames ses = []")
          case fe: True
          show ?thesis
          proof (cases "dirnames ses")
            case Nil
            then have "ses = []" using fe no_names by blast
            then show ?thesis using step fb r same False by simp
          next
            case (Cons d ds)
            then obtain dsub where "(d, Dir dsub) \<in> set ses"
              using dirnames_mem [of d ses] by auto
            then have gd: "get (src st) (p @ [d]) = Some (Dir dsub)" using kids'' by auto
            have "forward_body md5 (Source, p @ [d]) (filenames dsub) st = Raise NotADirectoryError st"
              using gr r forward_body_under_file by simp
            then have "?W ((p @ [d]) # (map (\<lambda>d. p @ [d]) ds @ rest)) st =
                Some (Raise NotADirectoryError st)"
              using gd by (subst os_walk.simps) simp
            moreover have "ses \<noteq> []" using Cons by auto
            ultimately show ?thesis using step fb fe Cons r same by simp
          qed
        next
          case fe: False
          then have "ses \<noteq> []" by auto
          then show ?thesis using step fb fe r same by simp
        qed
      qed
    next
      case nf: False
      obtain res1 evs1 eo where cp: "copy_files_pure md5 p ses (listing_of r) = (res1, evs1, eo)"
        by (cases "copy_files_pure md5 p ses (listing_of r)") auto
      let ?evs0 = "if r = None then [DirCreated (Replica, rel p)] else []"
      let ?st1 = "upd st p (Some (Dir res1)) (?evs0 @ evs1)"
      have fb: "forward_body md5 (Source, p) (filenames ses) st = finish eo ?st1"
        using forward_body_pure [OF nd ad _ kids', of md5] nf gr cp by simp
      show ?thesis
      proof (cases eo)
        case (Some e)
        then show ?thesis using step fb cp nf by simp
      next
        case None
        note q = "2.IH" [OF nf cp [unfolded None, symmetric] refl refl]
        have g1: "get (rep ?st1) p = Some (Dir res1)" using ad nd by (simp add: get_put)
        have "?W (map (\<lambda>d. p @ [d]) (dirnames ses) @ rest) ?st1 =
          (case forward_children md5 p ses res1 of
            (res', evs, eo) \<Rightarrow> continue_with (?W rest) eo (upd ?st1 p (Some (Dir res')) evs))"
          using q [rule_format, of ?st1 rest] nd kids g1 by simp
        then show ?thesis using step fb cp nf None ad nd
          by (simp add: upd_upd split: prod.splits)
      qed
    qed
  qed
next
  case (3 md5 p res)
  show ?case by (simp add: upd_same)
next
  case (4 md5 p n c ses res)
  then show ?case by simp
next
  case (5 md5 p n ds ses res)
  show ?case
  proof (intro allI impI)
    fix st :: state and rest
    let ?W = "os_walk (forward_body md5) Source"
    let ?rest' = "map (\<lambda>d. p @ [d]) (dirnames ses) @ rest"
    assume nd: "''.'' \<notin> set p"
      and kids: "\<forall>(n, t) \<in> set ((n, Dir ds) # ses).
          n \<noteq> ''.'' \<and> wf_node t \<and> get (src st) (p @ [n]) = Some t"
      and gr: "get (rep st) p = Some (Dir res)"
    have n: "n \<noteq> ''.''" and wfd: "wf_node (Dir ds)"
      and gs: "get (src st) (p @ [n]) = Some (Dir ds)" using kids by auto
    have nd': "''.'' \<notin> set (p @ [n])" using nd n by auto
    have ad: "addr (rep st) p" using gr nd addr_get by fastforce
    have ad': "addr (rep st) (p @ [n])" using gr nd by (rule addr_snoc)
    have gr': "get (rep st) (p @ [n]) = map_of res n" using gr n by (simp add: get_append)
    obtain r' evs eo where fp: "forward_pure md5 (p @ [n]) (Dir ds) (map_of res n) = (r', evs, eo)"
      by (cases "forward_pure md5 (p @ [n]) (Dir ds) (map_of res n)") auto
    have u: "upd st (p @ [n]) r' evs = upd st p (Some (Dir (set_entry n r' res))) evs"
      using gr n by (simp add: upd_def put_snoc)
    let ?st1 = "upd st p (Some (Dir (set_entry n r' res))) evs"
    have w1: "?W ((p @ [n]) # ?rest') st = continue_with (?W ?rest') eo ?st1"
      using "5.IH"(1) [rule_format, of st ?rest'] wfd nd' gs ad' gr' fp u by simp
    show "?W (map (\<lambda>d. p @ [d]) (dirnames ((n, Dir ds) # ses)) @ rest) st =
      (case forward_children md5 p ((n, Dir ds) # ses) res of
         (res', evs, eo) \<Rightarrow> continue_with (?W rest) eo (upd st p (Some (Dir res')) evs))"
    proof (cases eo)
      case (Some e)
      then show ?thesis using w1 fp by simp
    next
      case None
      note q = "5.IH"(2) [OF fp [unfolded None, symmetric] refl refl]
      have g1: "get (rep ?st1) p = Some (Dir (set_entry n r' res))"
        using ad nd by (simp add: get_put)
      have "?W ?rest' ?st1 =
        (case forward_children md5 p ses (set_entry n r' res) of
          (res', evs, eo) \<Rightarrow> continue_with (?W rest) eo (upd ?st1 p (Some (Dir res')) evs))"
        using q [rule_format, of ?st1 rest] nd kids g1 by simp
      then show ?thesis using w1 fp None ad nd
        by (simp add: upd_upd split: prod.splits)
    qed
  qed
qed


lemma walk_nil: "os_walk body r [] st = Some (Ok st)"
  by (subst os_walk.simps) simp

lemma rmtree_root:
  "rep st = Some (Dir es) \<Longrightarrow> shutil_rmtree st (Replica, []) = Ok (st\<lparr>rep := None\<rparr>)"
  by simp

lemma get_put_under:
  "addr r p \<Longrightarrow> ''.'' \<notin> set p \<Longrightarrow> get (put p v r) (p @ q) = get v q"
  by (simp add: get_append get_put)

lemma get_rel_child: "get r (rel p) = Some sn \<Longrightarrow> get r (p @ q) = get (Some sn) q"
proof (cases "p = []")
  case True
  assume "get r (rel p) = Some sn"
  then have "r = Some sn" using True
    by (cases r; cases "the r") (auto simp: rel_def)
  then show ?thesis using True by simp
next
  case False
  assume "get r (rel p) = Some sn"
  then show ?thesis using False by (simp add: rel_def get_append)
qed

lemma remove_file_pure:
  assumes "''.'' \<notin> set p" "f \<noteq> ''.''" "get (rep st) p = Some (Dir cur)"
    "map_of cur f = Some (File c)" "get (src st) (rel p) = Some sn"
  shows "remove_file (Replica, p) (Source, rel p) f st =
     (if get (Some sn) [f] = None then
        Ok (upd st p (Some (Dir (AList.delete f cur))) [FileRemoved (Replica, p @ [f])])
      else Ok st)"
proof -
  have e: "os_path_exists st (Source, rel p @ [f]) = (get (Some sn) [f] \<noteq> None)"
    using assms(5) by (simp add: get_append)
  have r: "os_remove st (Replica, p @ [f]) =
      Ok (st\<lparr>rep := put p (Some (Dir (AList.delete f cur))) (rep st)\<rparr>)"
    using assms by (simp add: get_append put_snoc set_entry_def)
  show ?thesis using e r
    by (simp add: remove_file_def Let_def upd_def logging_info_def
        del: os_path_exists.simps os_remove.simps)
qed

lemma remove_loop_pure:
  assumes "''.'' \<notin> set p" "get (rep st) p = Some (Dir cur)" "get (src st) (rel p) = Some sn"
    "\<forall>(n, t) \<in> set es. n \<noteq> ''.'' \<and> map_of cur n = Some t" "distinct (map fst es)"
  shows "for_each (remove_file (Replica, p) (Source, rel p)) (filenames es) st =
     (case remove_files_pure p sn es cur of
        (cur', evs) \<Rightarrow> Ok (upd st p (Some (Dir cur')) evs))"
  using assms
proof (induction es arbitrary: st cur)
  case Nil
  then show ?case by (simp add: upd_same)
next
  case (Cons a es)
  obtain f t where a: "a = (f, t)" by (cases a)
  have ad: "addr (rep st) p" using Cons.prems addr_get by fastforce
  show ?case
  proof (cases t)
    case (Dir ds)
    then show ?thesis using Cons a by simp
  next
    case (File c)
    have rf: "remove_file (Replica, p) (Source, rel p) f st =
     (if get (Some sn) [f] = None then
        Ok (upd st p (Some (Dir (AList.delete f cur))) [FileRemoved (Replica, p @ [f])])
      else Ok st)"
      using Cons.prems a File by (intro remove_file_pure) auto
    let ?st1 = "upd st p (Some (Dir (AList.delete f cur))) [FileRemoved (Replica, p @ [f])]"
    have others: "\<forall>(n, t) \<in> set es. n \<noteq> f"
      using Cons.prems(5) a by (auto simp: image_iff)
    have kids1: "\<forall>(n, t) \<in> set es. n \<noteq> ''.'' \<and> map_of (AList.delete f cur) n = Some t"
    proof clarify
      fix n t
      assume m: "(n, t) \<in> set es"
      then have "n \<noteq> f" using others by auto
      moreover have "n \<noteq> ''.'' \<and> map_of cur n = Some t" using Cons.prems(4) m by auto
      ultimately show "n \<noteq> ''.'' \<and> map_of (AList.delete f cur) n = Some t" by simp
    qed
    have ih1: "for_each (remove_file (Replica, p) (Source, rel p)) (filenames es) ?st1 =
      (case remove_files_pure p sn es (AList.delete f cur) of
        (cur', evs) \<Rightarrow> Ok (upd ?st1 p (Some (Dir cur')) evs))"
      using Cons.prems(1,3,5) ad kids1 by (intro Cons.IH) (auto simp: get_put)
    have ih0: "for_each (remove_file (Replica, p) (Source, rel p)) (filenames es) st =
      (case remove_files_pure p sn es cur of
        (cur', evs) \<Rightarrow> Ok (upd st p (Some (Dir cur')) evs))"
      using Cons.prems by (intro Cons.IH) auto
    show ?thesis using a File rf ih1 ih0 Cons.prems(1) ad
      by (simp add: upd_upd split: prod.splits del: get.simps)
  qed
qed

lemma reverse_body_pure:
  assumes "''.'' \<notin> set p" "get (rep st) p = Some (Dir res)" "wf_node (Dir res)"
  shows "reverse_body (Replica, p) (filenames res) st =
     (case get (src st) (rel p) of
        None \<Rightarrow> Ok (upd st p None [DirRemoved (Replica, p)])
      | Some sn \<Rightarrow>
          (case remove_files_pure p sn res res of
             (res1, evs1) \<Rightarrow> Ok (upd st p (Some (Dir res1)) evs1)))"
proof (cases "get (src st) (rel p)")
  case None
  then show ?thesis using assms
    by (simp add: reverse_body_def Let_def upd_def logging_info_def)
next
  case (Some sn)
  have "\<forall>(n, t) \<in> set res. n \<noteq> ''.'' \<and> map_of res n = Some t"
    using assms(3) wf_entries_mem by auto
  then have "for_each (remove_file (Replica, p) (Source, rel p)) (filenames res) st =
     (case remove_files_pure p sn res res of
        (cur', evs) \<Rightarrow> Ok (upd st p (Some (Dir cur')) evs))"
    using assms Some by (intro remove_loop_pure) auto
  then show ?thesis using Some by (simp add: reverse_body_def Let_def)
qed

lemma remove_files_pure_other:
  "n \<notin> set (filenames es) \<Longrightarrow> map_of (fst (remove_files_pure p sn es cur)) n = map_of cur n"
  by (induction p sn es cur rule: remove_files_pure.induct)
    (auto split: prod.splits simp del: get.simps)

lemma filenames_dir:
  assumes "distinct (map fst es)" "(n, Dir ds) \<in> set es"
  shows "n \<notin> set (filenames es)"
proof
  assume "n \<in> set (filenames es)"
  then obtain c where "(n, File c) \<in> set es" using filenames_mem by blast
  then have "map_of es n = Some (File c)" using assms(1) by simp
  moreover have "map_of es n = Some (Dir ds)" using assms by simp
  ultimately show False by simp
qed


lemma reverse_walk_aux:
  "\<forall>(st :: state) rest. wf_node t \<longrightarrow> ''.'' \<notin> set p \<longrightarrow> get (rep st) p = Some t \<longrightarrow>
      get (src st) (rel p) = s \<longrightarrow>
      os_walk reverse_body Replica (p # rest) st =
      (case reverse_pure p t s of
         (r', evs) \<Rightarrow> os_walk reverse_body Replica rest (upd st p r' evs))"
  "\<forall>(st :: state) rest. ''.'' \<notin> set p \<longrightarrow> get (rep st) p = Some (Dir cur) \<longrightarrow>
      get (src st) (rel p) = Some sn \<longrightarrow>
      (\<forall>(n, t) \<in> set es. n \<noteq> ''.'' \<and> wf_node t \<and> (is_dir (Some t) \<longrightarrow> map_of cur n = Some t)) \<longrightarrow>
      distinct (map fst es) \<longrightarrow>
      os_walk reverse_body Replica (map (\<lambda>d. p @ [d]) (dirnames es) @ rest) st =
      (case reverse_children p sn es cur of
         (cur', evs) \<Rightarrow> os_walk reverse_body Replica rest (upd st p (Some (Dir cur')) evs))"
proof (induction p t s and p sn es cur rule: reverse_pure_reverse_children.induct)
  case (1 p c s)
  show ?case
  proof (intro allI impI)
    fix st :: state and rest
    assume "get (rep st) p = Some (File c)"
    then show "os_walk reverse_body Replica (p # rest) st =
      (case reverse_pure p (File c) s of
         (r', evs) \<Rightarrow> os_walk reverse_body Replica rest (upd st p r' evs))"
      by (subst os_walk.simps) (simp add: upd_same)
  qed
next
  case (2 p res s)
  show ?case
  proof (intro allI impI)
    fix st :: state and rest
    let ?W = "os_walk reverse_body Replica"
    assume wf: "wf_node (Dir res)" and nd: "''.'' \<notin> set p"
      and gr: "get (rep st) p = Some (Dir res)" and gs: "get (src st) (rel p) = s"
    have ad: "addr (rep st) p" using gr nd addr_get by fastforce
    have step: "?W (p # rest) st =
      (case reverse_body (Replica, p) (filenames res) st of
         Raise e st' \<Rightarrow> Some (Raise e st')
       | Ok st' \<Rightarrow> ?W (map (\<lambda>d. p @ [d]) (dirnames res) @ rest) st')"
      using gr by (subst os_walk.simps) simp
    note rb = reverse_body_pure [OF nd gr wf]
    show "?W (p # rest) st =
      (case reverse_pure p (Dir res) s of (r', evs) \<Rightarrow> ?W rest (upd st p r' evs))"
    proof (cases s)
      case None
      let ?st1 = "upd st p None [DirRemoved (Replica, p)]"
      have "\<forall>q \<in> set (map (\<lambda>d. p @ [d]) (dirnames res)). os_scandir ?st1 (Replica, q) = None"
        using ad nd by (auto simp: get_put_under)
      then have "?W (map (\<lambda>d. p @ [d]) (dirnames res) @ rest) ?st1 = ?W rest ?st1"
        by (rule walk_skip)
      then show ?thesis using step rb gs None by simp
    next
      case (Some sn)
      obtain res1 evs1 where cp: "remove_files_pure p sn res res = (res1, evs1)"
        by (cases "remove_files_pure p sn res res") auto
      let ?st1 = "upd st p (Some (Dir res1)) evs1"
      note q = "2.IH" [OF Some cp [symmetric]]
      have g1: "get (rep ?st1) p = Some (Dir res1)" using ad nd by (simp add: get_put)
      have kids: "\<forall>(n, t) \<in> set res.
          n \<noteq> ''.'' \<and> wf_node t \<and> (is_dir (Some t) \<longrightarrow> map_of res1 n = Some t)"
      proof clarify
        fix n t
        assume m: "(n, t) \<in> set res"
        have a: "n \<noteq> ''.'' \<and> wf_node t" using wf m wf_entries_mem by auto
        have "map_of res1 n = Some t" if d: "is_dir (Some t)"
        proof -
          obtain ds where t: "t = Dir ds" using d by (cases t) auto
          have "n \<notin> set (filenames res)" using wf m t filenames_dir by auto
          then have "map_of res1 n = map_of res n"
            using remove_files_pure_other [of n res p sn res] cp by simp
          then show ?thesis using wf m by simp
        qed
        then show "n \<noteq> ''.'' \<and> wf_node t \<and> (is_dir (Some t) \<longrightarrow> map_of res1 n = Some t)"
          using a by blast
      qed
      have "?W (map (\<lambda>d. p @ [d]) (dirnames res) @ rest) ?st1 =
        (case reverse_children p sn res res1 of
           (cur', evs) \<Rightarrow> ?W rest (upd ?st1 p (Some (Dir cur')) evs))"
        using q [rule_format, of ?st1 rest] nd g1 gs Some kids wf by simp
      then show ?thesis using step rb gs Some cp ad nd
        by (simp add: upd_upd split: prod.splits)
    qed
  qed
next
  case (3 p sn cur)
  show ?case by (simp add: upd_same)
next
  case (4 p sn n c es cur)
  then show ?case by simp
next
  case (5 p sn n ds es cur)
  show ?case
  proof (intro allI impI)
    fix st :: state and rest
    let ?W = "os_walk reverse_body Replica"
    let ?rest' = "map (\<lambda>d. p @ [d]) (dirnames es) @ rest"
    assume nd: "''.'' \<notin> set p" and gr: "get (rep st) p = Some (Dir cur)"
      and gs: "get (src st) (rel p) = Some sn"
      and kids: "\<forall>(n, t) \<in> set ((n, Dir ds) # es).
          n \<noteq> ''.'' \<and> wf_node t \<and> (is_dir (Some t) \<longrightarrow> map_of cur n = Some t)"
      and di: "distinct (map fst ((n, Dir ds) # es))"
    have n: "n \<noteq> ''.''" and wfd: "wf_node (Dir ds)" and mn: "map_of cur n = Some (Dir ds)"
      using kids by auto
    have nd': "''.'' \<notin> set (p @ [n])" using nd n by auto
    have ad: "addr (rep st) p" using gr nd addr_get by fastforce
    have gr': "get (rep st) (p @ [n]) = Some (Dir ds)" using gr n mn by (simp add: get_append)
    have gs': "get (src st) (rel (p @ [n])) = get (Some sn) [n]"
      using get_rel_child [OF gs, of "[n]"] by (simp add: rel_def)
    obtain r' evs where rp: "reverse_pure (p @ [n]) (Dir ds) (get (Some sn) [n]) = (r', evs)"
      by (cases "reverse_pure (p @ [n]) (Dir ds) (get (Some sn) [n])") auto
    have u: "upd st (p @ [n]) r' evs = upd st p (Some (Dir (set_entry n r' cur))) evs"
      using gr n by (simp add: upd_def put_snoc)
    let ?st1 = "upd st p (Some (Dir (set_entry n r' cur))) evs"
    have w1: "?W ((p @ [n]) # ?rest') st = ?W ?rest' ?st1"
      using "5.IH"(1) [rule_format, of st ?rest'] wfd nd' gr' gs' rp u
      by (simp del: get.simps)
    note q = "5.IH"(2) [OF rp [symmetric]]
    have g1: "get (rep ?st1) p = Some (Dir (set_entry n r' cur))"
      using ad nd by (simp add: get_put)
    have kids1: "\<forall>(m, t) \<in> set es.
        m \<noteq> ''.'' \<and> wf_node t \<and> (is_dir (Some t) \<longrightarrow> map_of (set_entry n r' cur) m = Some t)"
    proof clarify
      fix m t
      assume m: "(m, t) \<in> set es"
      then have "m \<noteq> n" using di by (auto simp: image_iff)
      moreover have "m \<noteq> ''.'' \<and> wf_node t \<and> (is_dir (Some t) \<longrightarrow> map_of cur m = Some t)"
        using kids m by auto
      ultimately show "m \<noteq> ''.'' \<and> wf_node t \<and>
          (is_dir (Some t) \<longrightarrow> map_of (set_entry n r' cur) m = Some t)"
        by (simp add: map_of_set_entry)
    qed
    have "?W ?rest' ?st1 =
      (case reverse_children p sn es (set_entry n r' cur) of
        (cur', evs) \<Rightarrow> ?W rest (upd ?st1 p (Some (Dir cur')) evs))"
      using q [rule_format, of ?st1 rest] nd g1 gs kids1 di by simp
    then show "?W (map (\<lambda>d. p @ [d]) (dirnames ((n, Dir ds) # es)) @ rest) st =
      (case reverse_children p sn ((n, Dir ds) # es) cur of
         (cur', evs) \<Rightarrow> ?W rest (upd st p (Some (Dir cur')) evs))"
      using w1 rp ad nd by (simp add: upd_upd split: prod.splits del: get.simps)
  qed
qed

lemma sync_missing_source:
  assumes "src st = None" "rep st = Some (Dir es)"
  shows "sync_folders md5 st =
      Some (Ok (st\<lparr>rep := None, log := log st @ [DirRemoved (Replica, [])]\<rparr>))"
proof -
  let ?st' = "st\<lparr>rep := None, log := log st @ [DirRemoved (Replica, [])]\<rparr>"
  have f: "forward_pass md5 st = Some (Ok st)"
    unfolding forward_pass_def using assms(1)
    by (subst os_walk.simps) (simp add: walk_nil)
  have b: "reverse_body (Replica, []) (filenames es) st = Ok ?st'"
    using assms by (simp add: reverse_body_def rel_def logging_info_def)
  have "\<forall>q \<in> set (map (\<lambda>d. [] @ [d]) (dirnames es)). os_scandir ?st' (Replica, q) = None"
    by auto
  then have "os_walk reverse_body Replica (map (\<lambda>d. [] @ [d]) (dirnames es) @ []) ?st' =
      os_walk reverse_body Replica [] ?st'"
    by (rule walk_skip)
  then have "reverse_pass st = Some (Ok ?st')"
    unfolding reverse_pass_def using assms(2) b
    by (subst os_walk.simps) (simp add: walk_nil)
  then show ?thesis using f by (simp add: sync_folders_def)
qed

lemma forward_missing_source: "src st = None \<Longrightarrow> forward_pass md5 st = Some (Ok st)"
  unfolding forward_pass_def by (subst os_walk.simps) (simp add: walk_nil)

text \<open>
  Claim C10. When the source root does not exist, the forward pass does nothing (the walk
  of a missing root yields no directory), and the reverse pass removes the whole replica
  tree, its root included, with the one line \<open>Directory removed\<close> for the root: the
  path \<open>os.path.join(source, ''.'')\<close> fails the existence check.
\<close>

theorem missing_source_removes_replica:
  assumes "src st = None" "rep st = Some (Dir es)"
  shows "forward_pass md5 st = Some (Ok st) \<and>
    sync_folders md5 st =
      Some (Ok (st\<lparr>rep := None, log := log st @ [DirRemoved (Replica, [])]\<rparr>))"
  using assms forward_missing_source sync_missing_source by blast

theorem missing_source_removes_replica_witness:
  "src \<lparr>src = None, rep = Some (Dir [(''a'', File ''x''), (''d'', Dir [(''b'', File ''y'')])]), log = []\<rparr> = None \<and>
   forward_pass id \<lparr>src = None, rep = Some (Dir [(''a'', File ''x''), (''d'', Dir [(''b'', File ''y'')])]), log = []\<rparr>
     = Some (Ok \<lparr>src = None, rep = Some (Dir [(''a'', File ''x''), (''d'', Dir [(''b'', File ''y'')])]), log = []\<rparr>) \<and>
   sync_folders id \<lparr>src = None, rep = Some (Dir [(''a'', File ''x''), (''d'', Dir [(''b'', File ''y'')])]), log = []\<rparr>
     = Some (Ok \<lparr>src = None, rep = None, log = [DirRemoved (Replica, [])]\<rparr>)"
  using missing_source_removes_replica
    [of "\<lparr>src = None, rep = Some (Dir [(''a'', File ''x''), (''d'', Dir [(''b'', File ''y'')])]), log = []\<rparr>"
        "[(''a'', File ''x''), (''d'', Dir [(''b'', File ''y'')])]" id]
  by simp


lemma walk_invariant:
  assumes rf: "\<And>st. R st st" and tr: "\<And>a b c. R a b \<Longrightarrow> R b c \<Longrightarrow> R a c"
    and body: "\<And>p names st. R st (state_of (body (r, p) names st))"
    and run: "os_walk body r stack st = Some res"
  shows "R st (state_of res)"
proof -
  have "(\<forall>p names st. R st (state_of (body (r, p) names st))) \<longrightarrow> R st (state_of res)"
  proof (rule os_walk.raw_induct [where P = "\<lambda>body r stack st res.
      (\<forall>p names st. R st (state_of (body (r, p) names st))) \<longrightarrow> R st (state_of res)",
      OF _ run], goal_cases)
    case (1 walk body r stack st res)
    show ?case
    proof
      assume b: "\<forall>p names st. R st (state_of (body (r, p) names st))"
      show "R st (state_of res)"
      proof (cases stack)
        case Nil
        then show ?thesis using 1(2) rf by auto
      next
        case (Cons dir rest)
        show ?thesis
        proof (cases "os_scandir st (r, dir)")
          case None
          then show ?thesis using 1 Cons b by auto
        next
          case (Some dn)
          obtain dirs nondirs where dn: "dn = (dirs, nondirs)" by (cases dn)
          have rb: "R st (state_of (body (r, dir) nondirs st))" using b by blast
          show ?thesis
          proof (cases "body (r, dir) nondirs st")
            case (Ok st')
            then have "walk body r (map (\<lambda>d. dir @ [d]) dirs @ rest) st' = Some res"
              using 1(2) Cons Some dn by simp
            then have "R st' (state_of res)" using 1(1) b by blast
            moreover have "R st st'" using rb Ok by simp
            ultimately show ?thesis using tr by blast
          next
            case (Raise e st')
            then have "res = Raise e st'" using 1(2) Cons Some dn by simp
            then show ?thesis using rb Raise by simp
          qed
        qed
      qed
    qed
  qed
  then show ?thesis using body by blast
qed

lemma for_each_invariant:
  assumes rf: "\<And>st. R st st" and tr: "\<And>a b c. R a b \<Longrightarrow> R b c \<Longrightarrow> R a c"
    and body: "\<And>x st. R st (state_of (body x st))"
  shows "R st (state_of (for_each body xs st))"
proof (induction xs arbitrary: st)
  case Nil
  then show ?case using rf by simp
next
  case (Cons x xs)
  show ?case
  proof (cases "body x st")
    case (Ok st')
    then have "R st st'" using body [of st x] by simp
    moreover have "R st' (state_of (for_each body xs st'))" using Cons by blast
    ultimately show ?thesis using Ok tr by auto
  next
    case (Raise e st')
    then show ?thesis using body [of st x] by simp
  qed
qed


lemma only_adds_refl: "only_adds Q st st"
  by (simp add: only_adds_def)

lemma only_adds_trans: "only_adds Q a b \<Longrightarrow> only_adds Q b c \<Longrightarrow> only_adds Q a c"
  by (auto simp: only_adds_def)

lemma only_adds_log: "Q e \<Longrightarrow> only_adds Q st (logging_info e st)"
  by (simp add: only_adds_def logging_info_def)

lemma quiet_then_log:
  assumes "src (state_of r) = src st \<and> log (state_of r) = log st" "Q e"
  shows "only_adds Q st
    (state_of (case r of Raise x st' \<Rightarrow> Raise x st' | Ok st' \<Rightarrow> Ok (logging_info e st')))"
  using assms by (cases r) (auto simp: only_adds_def logging_info_def)

lemma mkdir_quiet:
  "src (state_of (os_mkdir st (Replica, p))) = src st \<and>
   log (state_of (os_mkdir st (Replica, p))) = log st"
  by (simp split: option.splits node.splits)

lemma makedirs_quiet:
  "src (state_of (os_makedirs st (Replica, p))) = src st \<and>
   log (state_of (os_makedirs st (Replica, p))) = log st"
proof (induction p arbitrary: st rule: rev_induct)
  case Nil
  then show ?case using mkdir_quiet [of st "[]"] by (subst (1 2) os_makedirs.simps) simp
next
  case (snoc x p)
  show ?case
  proof (cases "os_path_exists st (Replica, p)")
    case True
    then show ?thesis using mkdir_quiet [of st "p @ [x]"]
      by (subst (1 2) os_makedirs.simps) (simp del: os_mkdir.simps)
  next
    case False
    show ?thesis
    proof (cases "os_makedirs st (Replica, p)")
      case (Ok st')
      then have "src st' = src st \<and> log st' = log st" using snoc [of st] by simp
      then show ?thesis using False Ok mkdir_quiet [of st' "p @ [x]"]
        by (subst (1 2) os_makedirs.simps) (simp del: os_mkdir.simps)
    next
      case (Raise e st')
      then have "src st' = src st \<and> log st' = log st" using snoc [of st] by simp
      then show ?thesis using False Raise mkdir_quiet [of st' "p @ [x]"]
        by (subst (1 2) os_makedirs.simps) (simp del: os_mkdir.simps)
    qed
  qed
qed

lemma write_file_quiet:
  "src (state_of (write_file st (Replica, p) c)) = src st \<and>
   log (state_of (write_file st (Replica, p) c)) = log st"
  by (simp split: option.splits node.splits)

lemma copy2_quiet:
  "src (state_of (shutil_copy2 st sp (Replica, p))) = src st \<and>
   log (state_of (shutil_copy2 st sp (Replica, p))) = log st"
proof -
  obtain rs ps where sp: "sp = (rs, ps)" by (cases sp)
  show ?thesis using write_file_quiet
    by (simp add: sp Let_def split: option.splits node.splits del: write_file.simps)
qed

lemma rmtree_quiet:
  "src (state_of (shutil_rmtree st (Replica, p))) = src st \<and>
   log (state_of (shutil_rmtree st (Replica, p))) = log st"
  by (simp split: option.splits node.splits)

lemma remove_quiet:
  "src (state_of (os_remove st (Replica, p))) = src st \<and>
   log (state_of (os_remove st (Replica, p))) = log st"
  by (simp split: option.splits node.splits)

lemma copy_file_adds:
  "only_adds creates st (state_of (copy_file md5 dirpath (Replica, q) f st))"
proof -
  obtain rs ps where dp: "dirpath = (rs, ps)" by (cases dirpath)
  have c: "only_adds creates st (state_of
      (case shutil_copy2 st (rs, ps @ [f]) (Replica, q @ [f]) of
         Raise e st' \<Rightarrow> Raise e st'
       | Ok st' \<Rightarrow> Ok (logging_info (FileCopied (rs, ps @ [f]) (Replica, q @ [f])) st')))"
    by (intro quiet_then_log copy2_quiet) simp
  show ?thesis using c only_adds_refl [of creates st]
    by (simp add: copy_file_def dp Let_def split: sum.splits
        del: shutil_copy2.simps calculate_md5.simps os_path_exists.simps)
qed

lemma forward_body_adds:
  "only_adds creates st (state_of (forward_body md5 (Source, p) names st))"
proof -
  let ?mk = "if \<not> os_path_exists st (Replica, rel p) then
                 (case os_makedirs st (Replica, rel p) of
                    Raise e st' \<Rightarrow> Raise e st'
                  | Ok st' \<Rightarrow> Ok (logging_info (DirCreated (Replica, rel p)) st'))
               else Ok st"
  have m: "only_adds creates st (state_of ?mk)"
    using makedirs_quiet quiet_then_log [of "os_makedirs st (Replica, rel p)" st creates]
      only_adds_refl [of creates st]
    by simp
  show ?thesis
  proof (cases ?mk)
    case (Raise e st')
    then show ?thesis using m by (simp add: forward_body_def Let_def del: os_path_exists.simps)
  next
    case (Ok st')
    have "only_adds creates st' (state_of (for_each (copy_file md5 (Source, p) (Replica, rel p)) names st'))"
      using only_adds_refl only_adds_trans copy_file_adds
      by (rule for_each_invariant)
    then show ?thesis using m Ok only_adds_trans
      by (simp add: forward_body_def Let_def del: os_path_exists.simps)
  qed
qed

lemma remove_file_adds:
  "only_adds removes st (state_of (remove_file (Replica, p) sd f st))"
proof -
  obtain rs ps where sd: "sd = (rs, ps)" by (cases sd)
  have "only_adds removes st (state_of
      (case os_remove st (Replica, p @ [f]) of
         Raise e st' \<Rightarrow> Raise e st'
       | Ok st' \<Rightarrow> Ok (logging_info (FileRemoved (Replica, p @ [f])) st')))"
    by (intro quiet_then_log remove_quiet) simp
  then show ?thesis using only_adds_refl [of removes st]
    by (simp add: remove_file_def sd Let_def del: os_remove.simps os_path_exists.simps)
qed

lemma reverse_body_adds:
  "only_adds removes st (state_of (reverse_body (Replica, p) names st))"
proof -
  have r: "only_adds removes st (state_of
      (case shutil_rmtree st (Replica, p) of
         Raise e st' \<Rightarrow> Raise e st'
       | Ok st' \<Rightarrow> Ok (logging_info (DirRemoved (Replica, p)) st')))"
    by (intro quiet_then_log rmtree_quiet) simp
  have l: "only_adds removes st
      (state_of (for_each (remove_file (Replica, p) (Source, rel p)) names st))"
    using only_adds_refl only_adds_trans remove_file_adds
    by (rule for_each_invariant)
  show ?thesis using r l
    by (simp add: reverse_body_def Let_def del: shutil_rmtree.simps os_path_exists.simps)
qed

lemma forward_pass_adds:
  "forward_pass md5 st = Some res \<Longrightarrow> only_adds creates st (state_of res)"
  unfolding forward_pass_def
  using only_adds_refl only_adds_trans forward_body_adds
  by (rule walk_invariant)

lemma reverse_pass_adds:
  "reverse_pass st = Some res \<Longrightarrow> only_adds removes st (state_of res)"
  unfolding reverse_pass_def
  using only_adds_refl only_adds_trans reverse_body_adds
  by (rule walk_invariant)


lemma wf_entries_iff: "wf_entries es \<longleftrightarrow> (\<forall>(n, t) \<in> set es. n \<noteq> ''.'' \<and> wf_node t)"
  by (induction es) auto

lemma set_update_subset: "set (AList.update k v al) \<subseteq> insert (k, v) (set al)"
  by (induction al) auto

lemma set_delete_subset: "set (AList.delete k al) \<subseteq> set al"
  by (auto simp: AList.delete_eq)

lemma wf_update:
  assumes "wf_node (Dir es)" "k \<noteq> ''.''" "wf_node v"
  shows "wf_node (Dir (AList.update k v es))"
proof -
  have "\<forall>(n, t) \<in> set (AList.update k v es). n \<noteq> ''.'' \<and> wf_node t"
    using assms set_update_subset [of k v es] by (auto simp: wf_entries_iff)
  then show ?thesis using assms by (simp add: wf_entries_iff AList.distinct_update)
qed

lemma wf_delete:
  assumes "wf_node (Dir es)"
  shows "wf_node (Dir (AList.delete k es))"
proof -
  have "\<forall>(n, t) \<in> set (AList.delete k es). n \<noteq> ''.'' \<and> wf_node t"
    using assms set_delete_subset [of k es] by (auto simp: wf_entries_iff)
  then show ?thesis using assms by (simp add: wf_entries_iff AList.distinct_delete)
qed

lemma wf_set_entry:
  "wf_node (Dir es) \<Longrightarrow> k \<noteq> ''.'' \<Longrightarrow> wf_opt v \<Longrightarrow> wf_node (Dir (set_entry k v es))"
  by (cases v) (simp_all add: set_entry_def wf_update wf_delete del: wf_node.simps)

lemma wf_map_of: "wf_node (Dir es) \<Longrightarrow> wf_opt (map_of es k)"
  by (cases "map_of es k") (auto simp: wf_entries_iff dest: map_of_SomeD)

lemma copy_files_pure_wf:
  "wf_entries ses \<Longrightarrow> wf_node (Dir res) \<Longrightarrow> wf_node (Dir (fst (copy_files_pure md5 p ses res)))"
proof (induction md5 p ses res rule: copy_files_pure.induct)
  case (1 md5 p res)
  then show ?case by simp
next
  case (2 md5 p f ds ses res)
  then show ?case by simp
next
  case (3 md5 p f c ses res)
  have u: "wf_node (Dir (AList.update f (File c) res))"
    using 3(4,5) by (intro wf_update) auto
  show ?case
  proof (cases "map_of res f")
    case None
    then show ?thesis using 3 u by (auto split: prod.splits simp del: wf_node.simps)
  next
    case (Some t)
    then show ?thesis using 3 u
      by (cases t) (auto split: prod.splits simp del: wf_node.simps)
  qed
qed

lemma forward_pure_wf:
  "wf_node t \<longrightarrow> wf_opt r \<longrightarrow> wf_opt (fst (forward_pure md5 p t r))"
  "wf_entries ses \<longrightarrow> wf_node (Dir res) \<longrightarrow> wf_node (Dir (fst (forward_children md5 p ses res)))"
proof (induction md5 p t r and md5 p ses res rule: forward_pure_forward_children.induct)
  case (1 md5 p c r)
  then show ?case by simp
next
  case (2 md5 p ses r)
  show ?case
  proof (intro impI)
    assume wf: "wf_node (Dir ses)" and wr: "wf_opt r"
    show "wf_opt (fst (forward_pure md5 p (Dir ses) r))"
    proof (cases "is_file r")
      case True
      then show ?thesis using wr by simp
    next
      case False
      have wl: "wf_node (Dir (listing_of r))"
        using wr False by (cases r; cases "the r") auto
      obtain res1 evs1 eo where cp: "copy_files_pure md5 p ses (listing_of r) = (res1, evs1, eo)"
        by (cases "copy_files_pure md5 p ses (listing_of r)") auto
      have w1: "wf_node (Dir res1)"
        using copy_files_pure_wf [of ses "listing_of r" md5 p] wf wl cp by simp
      show ?thesis
      proof (cases eo)
        case (Some e)
        then show ?thesis using False cp w1 by simp
      next
        case None
        note q = "2.IH" [OF False cp [unfolded None, symmetric] refl refl]
        then show ?thesis using False cp None w1 wf by (auto split: prod.splits)
      qed
    qed
  qed
next
  case (3 md5 p res)
  then show ?case by simp
next
  case (4 md5 p n c ses res)
  then show ?case by simp
next
  case (5 md5 p n ds ses res)
  show ?case
  proof (intro impI)
    assume wf: "wf_entries ((n, Dir ds) # ses)" and wr: "wf_node (Dir res)"
    obtain r' evs eo where fp: "forward_pure md5 (p @ [n]) (Dir ds) (map_of res n) = (r', evs, eo)"
      by (cases "forward_pure md5 (p @ [n]) (Dir ds) (map_of res n)") auto
    have "wf_opt r'" using "5.IH"(1) wf wf_map_of [OF wr, of n] fp by simp
    then have w1: "wf_node (Dir (set_entry n r' res))"
      using wr wf by (intro wf_set_entry) auto
    show "wf_node (Dir (fst (forward_children md5 p ((n, Dir ds) # ses) res)))"
    proof (cases eo)
      case (Some e)
      then show ?thesis using fp w1 by (simp del: wf_node.simps)
    next
      case None
      note q = "5.IH"(2) [OF fp [unfolded None, symmetric] refl refl]
      then show ?thesis using fp None w1 wf by (auto split: prod.splits simp del: wf_node.simps)
    qed
  qed
qed

lemma remove_files_pure_wf:
  "wf_node (Dir cur) \<Longrightarrow> wf_node (Dir (fst (remove_files_pure p sn es cur)))"
proof (induction p sn es cur rule: remove_files_pure.induct)
  case (3 p sn f c es cur)
  have "wf_node (Dir (AList.delete f cur))" using 3(3) by (rule wf_delete)
  then show ?case using 3 by (auto split: prod.splits simp del: wf_node.simps get.simps)
qed simp_all

lemma reverse_pure_wf:
  "wf_node t \<longrightarrow> wf_opt (fst (reverse_pure p t s))"
  "wf_entries es \<longrightarrow> wf_node (Dir cur) \<longrightarrow> wf_node (Dir (fst (reverse_children p sn es cur)))"
proof (induction p t s and p sn es cur rule: reverse_pure_reverse_children.induct)
  case (1 p c s)
  then show ?case by simp
next
  case (2 p res s)
  show ?case
  proof (cases s)
    case None
    then show ?thesis by simp
  next
    case (Some sn)
    obtain res1 evs1 where cp: "remove_files_pure p sn res res = (res1, evs1)"
      by (cases "remove_files_pure p sn res res") auto
    note q = "2.IH" [OF Some cp [symmetric]]
    have "wf_node (Dir res) \<Longrightarrow> wf_node (Dir res1)"
      using remove_files_pure_wf [of res p sn res] cp by simp
    then show ?thesis using q Some cp by (auto split: prod.splits)
  qed
next
  case (3 p sn cur)
  then show ?case by simp
next
  case (4 p sn n c es cur)
  then show ?case by simp
next
  case (5 p sn n ds es cur)
  show ?case
  proof (intro impI)
    assume wf: "wf_entries ((n, Dir ds) # es)" and wr: "wf_node (Dir cur)"
    obtain r' evs where rp: "reverse_pure (p @ [n]) (Dir ds) (get (Some sn) [n]) = (r', evs)"
      by (cases "reverse_pure (p @ [n]) (Dir ds) (get (Some sn) [n])") auto
    have "wf_opt r'" using "5.IH"(1) wf rp by (simp del: get.simps)
    then have w1: "wf_node (Dir (set_entry n r' cur))"
      using wr wf by (intro wf_set_entry) auto
    note q = "5.IH"(2) [OF rp [symmetric]]
    then show "wf_node (Dir (fst (reverse_children p sn ((n, Dir ds) # es) cur)))"
      using rp w1 wf by (auto split: prod.splits simp del: wf_node.simps get.simps)
  qed
qed

lemma upd_root: "upd st [] r evs = st\<lparr>rep := r, log := log st @ evs\<rparr>"
  by (simp add: upd_def)

lemma forward_pass_pure:
  assumes "src st = Some t" "wf_node t"
  shows "forward_pass md5 st =
     Some (case forward_pure md5 [] t (rep st) of
             (r', evs, eo) \<Rightarrow> finish eo (st\<lparr>rep := r', log := log st @ evs\<rparr>))"
proof -
  have "os_walk (forward_body md5) Source ([] # []) st =
      (case forward_pure md5 [] t (rep st) of
         (r', evs, eo) \<Rightarrow>
           continue_with (os_walk (forward_body md5) Source []) eo (upd st [] r' evs))"
    using forward_walk_aux(1) [rule_format, of t "[]" st "rep st" md5 "[]"] assms by simp
  moreover have "continue_with (os_walk (forward_body md5) Source []) eo st' = Some (finish eo st')"
    for eo st'
    by (cases eo) (simp_all add: walk_nil)
  ultimately show ?thesis
    by (simp add: forward_pass_def upd_root split: prod.splits)
qed

lemma reverse_pass_pure:
  assumes "rep st = Some t" "wf_node t"
  shows "reverse_pass st =
     Some (case reverse_pure [] t (get (src st) [''.'']) of
             (r', evs) \<Rightarrow> Ok (st\<lparr>rep := r', log := log st @ evs\<rparr>))"
proof -
  have "os_walk reverse_body Replica ([] # []) st =
      (case reverse_pure [] t (get (src st) (rel [])) of
         (r', evs) \<Rightarrow> os_walk reverse_body Replica [] (upd st [] r' evs))"
    using reverse_walk_aux(1) [rule_format, of t "[]" st "get (src st) (rel [])" "[]"] assms
    by simp
  then show ?thesis
    by (simp add: reverse_pass_def upd_root walk_nil rel_def split: prod.splits del: get.simps)
qed

lemma reverse_pass_norep: "rep st = None \<Longrightarrow> reverse_pass st = Some (Ok st)"
  unfolding reverse_pass_def by (subst os_walk.simps) (simp add: walk_nil)


lemma sync_folders_pure:
  assumes "wf_opt (src st)" "wf_opt (rep st)"
  shows "sync_folders md5 st = Some (sync_pure md5 st)"
proof (cases "src st")
  case None
  show ?thesis
  proof (cases "rep st")
    case n: None
    then show ?thesis using None
      by (simp add: sync_folders_def sync_pure_def forward_missing_source reverse_pass_norep)
  next
    case (Some t1)
    then show ?thesis using None assms
      by (simp add: sync_folders_def sync_pure_def forward_missing_source reverse_pass_pure
          split: prod.splits del: get.simps)
  qed
next
  case (Some t)
  then have wt: "wf_node t" using assms by simp
  obtain r1 evs1 eo where fp: "forward_pure md5 [] t (rep st) = (r1, evs1, eo)"
    by (cases "forward_pure md5 [] t (rep st)") auto
  have w1: "wf_opt r1" using forward_pure_wf(1) [of t "rep st" md5 "[]"] wt assms fp by simp
  let ?st1 = "st\<lparr>rep := r1, log := log st @ evs1\<rparr>"
  have f: "forward_pass md5 st = Some (finish eo ?st1)"
    using forward_pass_pure [OF Some wt, of md5] fp by simp
  show ?thesis
  proof (cases eo)
    case e: (Some e)
    then show ?thesis using f fp Some by (simp add: sync_folders_def sync_pure_def)
  next
    case None
    show ?thesis
    proof (cases r1)
      case n: None
      then have "reverse_pass ?st1 = Some (Ok ?st1)" by (simp add: reverse_pass_norep)
      then show ?thesis using f fp Some None n by (simp add: sync_folders_def sync_pure_def)
    next
      case s: (Some t1)
      then have "reverse_pass ?st1 =
         Some (case reverse_pure [] t1 (get (src ?st1) [''.'']) of
                 (r', evs) \<Rightarrow> Ok (?st1\<lparr>rep := r', log := log ?st1 @ evs\<rparr>))"
        using w1 by (intro reverse_pass_pure) auto
      then show ?thesis using f fp Some None s
        by (simp add: sync_folders_def sync_pure_def split: prod.splits del: get.simps)
    qed
  qed
qed

text \<open>
  Claim C9. A call of \<open>sync_folders\<close> leaves the source tree as it was, whether it
  returns or raises: every write and every removal goes to a path of the replica. For
  well-formed trees the call does return or raise (the two walks end).
\<close>

theorem source_never_mutated:
  "(\<forall>res. sync_folders md5 st = Some res \<longrightarrow> src (state_of res) = src st) \<and>
   (wf_opt (src st) \<and> wf_opt (rep st) \<longrightarrow> (\<exists>res. sync_folders md5 st = Some res))"
proof (intro conjI allI impI)
  fix res
  assume run: "sync_folders md5 st = Some res"
  show "src (state_of res) = src st"
  proof (cases "forward_pass md5 st")
    case None
    then show ?thesis using run by (simp add: sync_folders_def)
  next
    case (Some r1)
    then have a: "src (state_of r1) = src st"
      using forward_pass_adds [of md5 st r1] by (simp add: only_adds_def)
    show ?thesis
    proof (cases r1)
      case (Raise e st')
      then show ?thesis using run Some a by (simp add: sync_folders_def)
    next
      case (Ok st1)
      then have "reverse_pass st1 = Some res" using run Some by (simp add: sync_folders_def)
      then have "src (state_of res) = src st1"
        using reverse_pass_adds [of st1 res] by (simp add: only_adds_def)
      then show ?thesis using a Ok by simp
    qed
  qed
next
  assume "wf_opt (src st) \<and> wf_opt (rep st)"
  then show "\<exists>res. sync_folders md5 st = Some res"
    using sync_folders_pure [of st md5] by simp
qed

theorem source_never_mutated_witness:
  "src (state_of (Ok scenario_synced)) = src scenario \<and>
   (\<exists>res. sync_folders id scenario = Some res)"
proof -
  have run: "sync_folders id scenario = Some (Ok scenario_synced)"
    by code_simp
  have wf: "wf_opt (src scenario) \<and> wf_opt (rep scenario)"
    by (simp add: scenario_def)
  show ?thesis using source_never_mutated [of id scenario] run wf by blast
qed










subsection \<open>What the pure passes leave in a listing\<close>

lemma fst_case3 [simp]: "fst (case x of (a, b, c) \<Rightarrow> (a, g b, c)) = fst x"
  by (cases x) auto

lemma err_case3 [simp]: "snd (snd (case x of (a, b, c) \<Rightarrow> (a, g b, c))) = snd (snd x)"
  by (cases x) auto

lemma fst_case2 [simp]: "fst (case x of (a, b) \<Rightarrow> (a, g b)) = fst x"
  by (cases x) auto

lemma dirnames_file:
  assumes "distinct (map fst es)" "(n, File c) \<in> set es"
  shows "n \<notin> set (dirnames es)"
proof
  assume "n \<in> set (dirnames es)"
  then obtain ds where "(n, Dir ds) \<in> set es" using dirnames_mem by blast
  then have "map_of es n = Some (Dir ds)" using assms(1) by simp
  moreover have "map_of es n = Some (File c)" using assms by simp
  ultimately show False by simp
qed

lemma filenames_names: "set (filenames es) \<subseteq> fst ` set es"
  by (induction es rule: filenames.induct) auto

lemma dirnames_names: "set (dirnames es) \<subseteq> fst ` set es"
  by (induction es rule: dirnames.induct) auto

lemma copy_files_other:
  "n \<notin> set (filenames ses) \<Longrightarrow> map_of (fst (copy_files_pure md5 p ses res)) n = map_of res n"
  by (induction md5 p ses res rule: copy_files_pure.induct)
    (auto simp: AList.update_conv' split: option.splits node.splits)

lemma copy_files_file:
  assumes "distinct (map fst ses)" "snd (snd (copy_files_pure md5 p ses res)) = None"
    "(f, File c) \<in> set ses"
  shows "\<exists>c'. map_of (fst (copy_files_pure md5 p ses res)) f = Some (File c') \<and> md5 c' = md5 c"
  using assms
proof (induction md5 p ses res rule: copy_files_pure.induct)
  case (1 md5 p res)
  then show ?case by simp
next
  case (2 md5 p g ds ses res)
  then show ?case by auto
next
  case (3 md5 p g d ses res)
  show ?case
  proof (cases "(f, File c) \<in> set ses")
    case True
    then show ?thesis using 3 by (auto split: option.splits node.splits if_splits)
  next
    case False
    then have fg: "f = g" "c = d" using "3.prems" by auto
    have "g \<notin> set (filenames ses)" using "3.prems"(1) filenames_names by fastforce
    then have same: "map_of (fst (copy_files_pure md5 p ses r')) g = map_of r' g" for r'
      by (rule copy_files_other)
    show ?thesis using fg "3.prems"(2) same
      by (auto simp: AList.update_conv' split: option.splits node.splits if_splits)
  qed
qed


lemma copy_files_noop:
  assumes "\<forall>(f, t) \<in> set ses. \<forall>c. t = File c \<longrightarrow> (\<exists>c'. map_of res f = Some (File c') \<and> md5 c = md5 c')"
  shows "copy_files_pure md5 p ses res = (res, [], None)"
  using assms
  by (induction md5 p ses res rule: copy_files_pure.induct) auto

lemma forward_children_fst:
  "fst (forward_children md5 p ((n, Dir ds) # ses) res) =
     (if snd (snd (forward_pure md5 (p @ [n]) (Dir ds) (map_of res n))) = None
      then fst (forward_children md5 p ses
                  (set_entry n (fst (forward_pure md5 (p @ [n]) (Dir ds) (map_of res n))) res))
      else set_entry n (fst (forward_pure md5 (p @ [n]) (Dir ds) (map_of res n))) res)"
  by (simp split: prod.splits option.splits del: forward_pure.simps)

lemma forward_children_err:
  "snd (snd (forward_children md5 p ((n, Dir ds) # ses) res)) =
     (if snd (snd (forward_pure md5 (p @ [n]) (Dir ds) (map_of res n))) = None
      then snd (snd (forward_children md5 p ses
                  (set_entry n (fst (forward_pure md5 (p @ [n]) (Dir ds) (map_of res n))) res)))
      else snd (snd (forward_pure md5 (p @ [n]) (Dir ds) (map_of res n))))"
  by (simp split: prod.splits option.splits del: forward_pure.simps)

lemma forward_children_other:
  "n \<notin> set (dirnames ses) \<Longrightarrow> map_of (fst (forward_children md5 p ses res)) n = map_of res n"
proof (induction ses arbitrary: res)
  case Nil
  then show ?case by simp
next
  case (Cons a ses)
  obtain m t where a: "a = (m, t)" by (cases a)
  show ?case
  proof (cases t)
    case (File c)
    then show ?thesis using Cons a by simp
  next
    case (Dir ds)
    then show ?thesis using Cons a
      by (simp add: forward_children_fst map_of_set_entry
          del: forward_pure.simps forward_children.simps(3))
  qed
qed

lemma forward_children_dir:
  assumes "distinct (map fst ses)" "snd (snd (forward_children md5 p ses res)) = None"
    "(n, Dir ds) \<in> set ses"
  shows "snd (snd (forward_pure md5 (p @ [n]) (Dir ds) (map_of res n))) = None \<and>
    map_of (fst (forward_children md5 p ses res)) n =
      fst (forward_pure md5 (p @ [n]) (Dir ds) (map_of res n))"
  using assms
proof (induction ses arbitrary: res)
  case Nil
  then show ?case by simp
next
  case (Cons a ses)
  obtain m t where a: "a = (m, t)" by (cases a)
  have di: "distinct (map fst ses)" and m: "m \<notin> fst ` set ses" using Cons.prems a by auto
  show ?case
  proof (cases t)
    case (File c)
    then show ?thesis using Cons.IH [OF di, of res] Cons.prems a by auto
  next
    case (Dir d)
    obtain r' evs eo where fp: "forward_pure md5 (p @ [m]) (Dir d) (map_of res m) = (r', evs, eo)"
      by (cases "forward_pure md5 (p @ [m]) (Dir d) (map_of res m)") auto
    have eo: "eo = None" using Cons.prems(2) a Dir fp
      by (cases eo) (simp_all add: forward_children_err del: forward_pure.simps forward_children.simps(3))
    have rest: "snd (snd (forward_children md5 p ses (set_entry m r' res))) = None"
      using Cons.prems(2) a Dir fp eo
      by (simp add: forward_children_err del: forward_pure.simps forward_children.simps(3))
    have whole: "fst (forward_children md5 p (a # ses) res) =
        fst (forward_children md5 p ses (set_entry m r' res))"
      using a Dir fp eo
      by (simp add: forward_children_fst del: forward_pure.simps forward_children.simps(3))
    show ?thesis
    proof (cases "(n, Dir ds) \<in> set ses")
      case True
      then have "n \<noteq> m" using m by (auto simp: image_iff)
      then show ?thesis using Cons.IH [OF di rest True] whole
        by (simp add: map_of_set_entry)
    next
      case False
      then have nm: "n = m" "ds = d" using Cons.prems(3) a Dir by auto
      have "m \<notin> set (dirnames ses)" using m dirnames_names by blast
      then have "map_of (fst (forward_children md5 p ses (set_entry m r' res))) m =
          map_of (set_entry m r' res) m"
        by (rule forward_children_other)
      then show ?thesis using nm whole fp eo by (simp add: map_of_set_entry)
    qed
  qed
qed

lemma forward_children_noop:
  assumes "\<forall>(n, t) \<in> set ses. \<forall>ds. t = Dir ds \<longrightarrow>
      forward_pure md5 (p @ [n]) t (map_of res n) = (map_of res n, [], None)"
  shows "forward_children md5 p ses res = (res, [], None)"
  using assms
proof (induction ses)
  case Nil
  then show ?case by simp
next
  case (Cons a ses)
  obtain m t where a: "a = (m, t)" by (cases a)
  show ?case using Cons a by (cases t) (auto simp: set_entry_same simp del: forward_pure.simps)
qed

lemma forward_pure_some: "fst (forward_pure md5 p (Dir ses) r) = None \<Longrightarrow> False"
  by (cases r; cases "the r") (auto split: prod.splits option.splits if_splits)


lemma forward_pure_fst:
  "\<not> is_file r \<Longrightarrow> fst (forward_pure md5 p (Dir ses) r) =
     Some (Dir (if snd (snd (copy_files_pure md5 p ses (listing_of r))) = None
                then fst (forward_children md5 p ses (fst (copy_files_pure md5 p ses (listing_of r))))
                else fst (copy_files_pure md5 p ses (listing_of r))))"
  by (simp split: prod.splits option.splits)

lemma forward_pure_err:
  "\<not> is_file r \<Longrightarrow> snd (snd (forward_pure md5 p (Dir ses) r)) =
     (if snd (snd (copy_files_pure md5 p ses (listing_of r))) = None
      then snd (snd (forward_children md5 p ses (fst (copy_files_pure md5 p ses (listing_of r)))))
      else snd (snd (copy_files_pure md5 p ses (listing_of r))))"
  by (simp split: prod.splits option.splits)

lemma forward_pure_file:
  "forward_pure md5 p (Dir ses) (Some (File x)) =
     (Some (File x), [], if p = [] \<or> ses \<noteq> [] then Some NotADirectoryError else None)"
  by simp

lemma remove_files_file:
  assumes "distinct (map fst es)" "(f, File c) \<in> set es"
  shows "map_of (fst (remove_files_pure p sn es cur)) f =
     (if get (Some sn) [f] = None then None else map_of cur f)"
  using assms
proof (induction p sn es cur rule: remove_files_pure.induct)
  case (1 p sn cur)
  then show ?case by simp
next
  case (2 p sn g ds es cur)
  then show ?case by (auto simp del: get.simps)
next
  case (3 p sn g d es cur)
  show ?case
  proof (cases "(f, File c) \<in> set es")
    case True
    then have "f \<noteq> g" using "3.prems"(1) by (auto simp: image_iff)
    then show ?thesis using 3 True by (auto simp del: get.simps)
  next
    case False
    then have fg: "f = g" using "3.prems" by auto
    have "g \<notin> set (filenames es)" using "3.prems"(1) filenames_names by fastforce
    then have same: "map_of (fst (remove_files_pure p sn es cur')) g = map_of cur' g" for cur'
      by (rule remove_files_pure_other)
    show ?thesis using fg same by (simp add: AList.delete_conv' del: get.simps)
  qed
qed

lemma remove_files_noop:
  assumes "\<forall>(f, t) \<in> set es. is_file (Some t) \<longrightarrow> get (Some sn) [f] \<noteq> None"
  shows "remove_files_pure p sn es cur = (cur, [])"
  using assms
  by (induction p sn es cur rule: remove_files_pure.induct) (auto simp del: get.simps)

lemma reverse_children_fst:
  "fst (reverse_children p sn ((n, Dir ds) # es) cur) =
     fst (reverse_children p sn es
            (set_entry n (fst (reverse_pure (p @ [n]) (Dir ds) (get (Some sn) [n]))) cur))"
  by (simp split: prod.splits del: reverse_pure.simps get.simps)

lemma reverse_children_other:
  "n \<notin> set (dirnames es) \<Longrightarrow> map_of (fst (reverse_children p sn es cur)) n = map_of cur n"
proof (induction es arbitrary: cur)
  case Nil
  then show ?case by simp
next
  case (Cons a es)
  obtain m t where a: "a = (m, t)" by (cases a)
  show ?case
  proof (cases t)
    case (File c)
    then show ?thesis using Cons a by simp
  next
    case (Dir ds)
    then show ?thesis using Cons a
      by (simp add: reverse_children_fst map_of_set_entry
          del: reverse_pure.simps reverse_children.simps(3) get.simps)
  qed
qed

lemma reverse_children_dir:
  assumes "distinct (map fst es)" "(n, Dir ds) \<in> set es"
  shows "map_of (fst (reverse_children p sn es cur)) n =
      fst (reverse_pure (p @ [n]) (Dir ds) (get (Some sn) [n]))"
  using assms
proof (induction es arbitrary: cur)
  case Nil
  then show ?case by simp
next
  case (Cons a es)
  obtain m t where a: "a = (m, t)" by (cases a)
  have di: "distinct (map fst es)" and m: "m \<notin> fst ` set es" using Cons.prems a by auto
  show ?case
  proof (cases "(n, Dir ds) \<in> set es")
    case True
    show ?thesis
    proof (cases t)
      case (File c)
      then show ?thesis using Cons.IH [OF di True] a by simp
    next
      case (Dir d)
      then show ?thesis using Cons.IH [OF di True] a
        by (simp add: reverse_children_fst
            del: reverse_pure.simps reverse_children.simps(3) get.simps)
    qed
  next
    case False
    then have nm: "m = n" "t = Dir ds" using Cons.prems(2) a by auto
    have "n \<notin> set (dirnames es)" using m nm dirnames_names by blast
    then have "map_of (fst (reverse_children p sn es cur')) n = map_of cur' n" for cur'
      by (rule reverse_children_other)
    then show ?thesis using a nm
      by (simp add: reverse_children_fst map_of_set_entry
          del: reverse_pure.simps reverse_children.simps(3) get.simps)
  qed
qed

lemma reverse_children_noop:
  assumes "\<forall>(n, t) \<in> set es. \<forall>ds. t = Dir ds \<longrightarrow>
      reverse_pure (p @ [n]) t (get (Some sn) [n]) = (map_of cur n, [])"
  shows "reverse_children p sn es cur = (cur, [])"
  using assms
proof (induction es)
  case Nil
  then show ?case by simp
next
  case (Cons a es)
  obtain m t where a: "a = (m, t)" by (cases a)
  show ?case using Cons a
    by (cases t) (auto simp: set_entry_same simp del: reverse_pure.simps get.simps)
qed

lemma reverse_pure_fst:
  "fst (reverse_pure p (Dir res) (Some sn)) =
     Some (Dir (fst (reverse_children p sn res (fst (remove_files_pure p sn res res)))))"
  by (simp split: prod.splits)

lemma reverse_result:
  assumes "wf_node (Dir res)"
  shows "map_of (fst (reverse_children p sn res (fst (remove_files_pure p sn res res)))) n =
     (case map_of res n of
        None \<Rightarrow> None
      | Some (File x) \<Rightarrow> if get (Some sn) [n] = None then None else Some (File x)
      | Some (Dir d) \<Rightarrow> fst (reverse_pure (p @ [n]) (Dir d) (get (Some sn) [n])))"
proof -
  have di: "distinct (map fst res)" using assms by simp
  show ?thesis
  proof (cases "map_of res n")
    case None
    then have "n \<notin> fst ` set res" by (simp add: map_of_eq_None_iff)
    then have "n \<notin> set (dirnames res)" "n \<notin> set (filenames res)"
      using dirnames_names filenames_names by blast+
    then show ?thesis using None
      by (simp add: reverse_children_other remove_files_pure_other)
  next
    case (Some t)
    then have m: "(n, t) \<in> set res" by (rule map_of_SomeD)
    show ?thesis
    proof (cases t)
      case (File x)
      then have "n \<notin> set (dirnames res)" using di m dirnames_file by blast
      then show ?thesis using Some File di m
        by (simp add: reverse_children_other remove_files_file del: get.simps)
    next
      case (Dir d)
      then show ?thesis using Some di m
        by (simp add: reverse_children_dir del: get.simps reverse_pure.simps)
    qed
  qed
qed

lemma in_sync_entries_iff:
  "in_sync_entries md5 strict ses res \<longleftrightarrow>
   (\<forall>(n, t) \<in> set ses. \<exists>x. map_of res n = Some x \<and> in_sync md5 strict t x)"
  by (induction ses) (auto split: option.splits)

lemma dirs_free_entries_iff:
  "dirs_free_entries ses res \<longleftrightarrow> (\<forall>(n, t) \<in> set ses. dirs_free t (map_of res n))"
  by (induction ses) auto

lemma dirs_free_None: "dirs_free t None"
  by (cases t) auto


lemma settle_in_sync:
  assumes "wf_node t" "wf_opt r" "snd (snd (forward_pure md5 p t r)) = None"
    "strict \<longrightarrow> dirs_free t r" "is_dir (Some t)"
  shows "\<exists>x. settle p t (fst (forward_pure md5 p t r)) = Some x \<and> in_sync md5 strict t x"
  using assms
proof (induction t arbitrary: p r)
  case (File c)
  then show ?case by simp
next
  case (Dir ses)
  have di: "distinct (map fst ses)" using Dir.prems(1) by simp
  have names: "\<forall>(n, t) \<in> set ses. n \<noteq> ''.'' \<and> wf_node t"
    using Dir.prems(1) by (simp add: wf_entries_iff)
  show ?case
  proof (cases "is_file r")
    case True
    then obtain x where r: "r = Some (File x)" by (cases r; cases "the r") auto
    then have e: "p \<noteq> [] \<and> ses = []" using Dir.prems(3) by (auto split: if_splits)
    then have "\<not> strict" using Dir.prems(4) r by auto
    then show ?thesis using r e by simp
  next
    case False
    let ?res0 = "listing_of r"
    let ?c = "copy_files_pure md5 p ses ?res0"
    let ?res1 = "fst ?c"
    let ?k = "forward_children md5 p ses ?res1"
    let ?res2 = "fst ?k"
    let ?res4 = "fst (reverse_children p (Dir ses) ?res2 (fst (remove_files_pure p (Dir ses) ?res2 ?res2)))"
    have ec: "snd (snd ?c) = None" and ek: "snd (snd ?k) = None"
      using Dir.prems(3) False by (auto simp: forward_pure_err split: if_splits simp del: forward_pure.simps)
    have f2: "fst (forward_pure md5 p (Dir ses) r) = Some (Dir ?res2)"
      using False ec by (simp add: forward_pure_fst del: forward_pure.simps)
    have w2: "wf_node (Dir ?res2)"
      using forward_pure_wf(1) [of "Dir ses" r md5 p] Dir.prems(1,2) f2 by simp
    have st: "settle p (Dir ses) (fst (forward_pure md5 p (Dir ses) r)) = Some (Dir ?res4)"
      using f2 by (simp add: reverse_pure_fst del: forward_pure.simps reverse_pure.simps)
    have m4: "map_of ?res4 n =
       (case map_of ?res2 n of
          None \<Rightarrow> None
        | Some (File x) \<Rightarrow> if get (Some (Dir ses)) [n] = None then None else Some (File x)
        | Some (Dir d) \<Rightarrow> fst (reverse_pure (p @ [n]) (Dir d) (get (Some (Dir ses)) [n])))" for n
      using w2 by (rule reverse_result)
    have w0: "wf_node (Dir ?res0)" using Dir.prems(2) False by (cases r; cases "the r") auto
    have free0: "strict \<longrightarrow> dirs_free t' (map_of ?res0 n)" if "(n, t') \<in> set ses" for n t'
    proof (cases r)
      case None
      then show ?thesis by (simp add: dirs_free_None)
    next
      case (Some u)
      then obtain res where "u = Dir res" using False by (cases u) auto
      then show ?thesis using Some Dir.prems(4) that by (auto simp: dirs_free_entries_iff)
    qed
    have entries: "\<exists>x. map_of ?res4 n = Some x \<and> in_sync md5 strict t' x"
      if mem: "(n, t') \<in> set ses" for n t'
    proof -
      have n: "n \<noteq> ''.''" and wt: "wf_node t'" using names mem by auto
      have sn: "map_of ses n = Some t'" using di mem by simp
      show ?thesis
      proof (cases t')
        case (File c)
        then have "n \<notin> set (dirnames ses)" using di mem dirnames_file by blast
        then have "map_of ?res2 n = map_of ?res1 n" by (rule forward_children_other)
        moreover obtain c' where "map_of ?res1 n = Some (File c')" "md5 c' = md5 c"
          using copy_files_file [OF di ec, of n c] mem File by auto
        ultimately show ?thesis using m4 [of n] n sn File by simp
      next
        case (Dir ds)
        then have "n \<notin> set (filenames ses)" using di mem filenames_dir by blast
        then have r1: "map_of ?res1 n = map_of ?res0 n" by (rule copy_files_other)
        let ?f = "forward_pure md5 (p @ [n]) (Dir ds) (map_of ?res0 n)"
        have ch: "snd (snd ?f) = None" "map_of ?res2 n = fst ?f"
          using forward_children_dir [OF di ek, of n ds] mem Dir r1 by auto
        have "\<exists>x. settle (p @ [n]) t' (fst (forward_pure md5 (p @ [n]) t' (map_of ?res0 n))) = Some x \<and>
            in_sync md5 strict t' x"
        proof (rule Dir.IH [of "(n, t')" t'])
          show "(n, t') \<in> set ses" by (rule mem)
          show "t' \<in> Basic_BNFs.snds (n, t')" by simp
          show "wf_node t'" by (rule wt)
          show "wf_opt (map_of ?res0 n)" using w0 by (rule wf_map_of)
          show "snd (snd (forward_pure md5 (p @ [n]) t' (map_of ?res0 n))) = None"
            using ch Dir by simp
          show "strict \<longrightarrow> dirs_free t' (map_of ?res0 n)" using free0 mem by blast
          show "is_dir (Some t')" using Dir by simp
        qed
        then obtain x where x: "settle (p @ [n]) (Dir ds) (fst ?f) = Some x"
          "in_sync md5 strict (Dir ds) x" using Dir by auto
        have "map_of ?res4 n = settle (p @ [n]) (Dir ds) (fst ?f)"
        proof (cases "fst ?f")
          case None
          then show ?thesis using forward_pure_some by blast
        next
          case (Some u)
          then show ?thesis using m4 [of n] ch(2) n sn Dir
            by (cases u) (simp_all del: forward_pure.simps reverse_pure.simps)
        qed
        then show ?thesis using x Dir by simp
      qed
    qed
    have orphans: "map_of ses n \<noteq> None" if mem: "(n, x) \<in> set ?res4" for n x
    proof
      assume none: "map_of ses n = None"
      have "map_of ?res4 n \<noteq> None" using mem by (metis map_of_eq_None_iff fst_conv image_eqI)
      then have "map_of ?res2 n \<noteq> None" using m4 [of n] by (auto split: option.splits)
      then obtain u where "(n, u) \<in> set ?res2" by (auto dest: map_of_SomeD)
      then have "n \<noteq> ''.''" using w2 by (auto simp: wf_entries_iff)
      then have "get (Some (Dir ses)) [n] = None" using none by simp
      then have "map_of ?res4 n = None" using m4 [of n]
        by (auto split: option.splits node.splits)
      then show False using \<open>map_of ?res4 n \<noteq> None\<close> by simp
    qed
    have "in_sync md5 strict (Dir ses) (Dir ?res4)"
      using entries orphans by (auto simp: in_sync_entries_iff list_all_iff)
    then show ?thesis using st by (simp del: forward_pure.simps reverse_pure.simps)
  qed
qed


lemma in_sync_forward_noop:
  assumes "in_sync md5 strict t x" "p \<noteq> [] \<or> is_dir (Some x)"
  shows "forward_pure md5 p t (Some x) = (Some x, [], None)"
  using assms
proof (induction t arbitrary: p x)
  case (File c)
  then show ?case by simp
next
  case (Dir ses)
  show ?case
  proof (cases x)
    case (File c')
    then show ?thesis using Dir.prems by auto
  next
    case x: (Dir res)
    have ent: "\<forall>(n, t) \<in> set ses. \<exists>y. map_of res n = Some y \<and> in_sync md5 strict t y"
      using Dir.prems(1) x by (simp add: in_sync_entries_iff)
    have "\<forall>(f, t) \<in> set ses. \<forall>c. t = File c \<longrightarrow>
        (\<exists>c'. map_of res f = Some (File c') \<and> md5 c = md5 c')"
    proof clarify
      fix f c
      assume "(f, File c) \<in> set ses"
      then obtain y where y: "map_of res f = Some y" "in_sync md5 strict (File c) y"
        using ent by fastforce
      then show "\<exists>c'. map_of res f = Some (File c') \<and> md5 c = md5 c'" by (cases y) auto
    qed
    then have c: "copy_files_pure md5 p ses res = (res, [], None)" by (rule copy_files_noop)
    have "\<forall>(n, t) \<in> set ses. \<forall>ds. t = Dir ds \<longrightarrow>
        forward_pure md5 (p @ [n]) t (map_of res n) = (map_of res n, [], None)"
    proof clarify
      fix n ds
      assume m: "(n, Dir ds) \<in> set ses"
      then obtain y where y: "map_of res n = Some y" "in_sync md5 strict (Dir ds) y"
        using ent by fastforce
      have "forward_pure md5 (p @ [n]) (Dir ds) (Some y) = (Some y, [], None)"
        using m y(2) by (intro Dir.IH [of "(n, Dir ds)"]) auto
      then show "forward_pure md5 (p @ [n]) (Dir ds) (map_of res n) = (map_of res n, [], None)"
        using y(1) by simp
    qed
    then have "forward_children md5 p ses res = (res, [], None)" by (rule forward_children_noop)
    then show ?thesis using c x by simp
  qed
qed

lemma in_sync_reverse_noop:
  assumes "in_sync md5 strict t (Dir res)" "wf_node (Dir res)"
  shows "reverse_pure p (Dir res) (Some t) = (Some (Dir res), [])"
  using assms
proof (induction t arbitrary: p res)
  case (File c)
  then show ?case by simp
next
  case (Dir ses)
  have ent: "\<forall>(n, t) \<in> set ses. \<exists>y. map_of res n = Some y \<and> in_sync md5 strict t y"
    and orph: "\<forall>(n, r) \<in> set res. map_of ses n \<noteq> None"
    using Dir.prems(1) by (simp_all add: in_sync_entries_iff list_all_iff)
  have di: "distinct (map fst res)" and names: "\<forall>(n, r) \<in> set res. n \<noteq> ''.'' \<and> wf_node r"
    using Dir.prems(2) by (simp_all add: wf_entries_iff)
  have "\<forall>(f, t) \<in> set res. is_file (Some t) \<longrightarrow> get (Some (Dir ses)) [f] \<noteq> None"
    using orph by auto
  then have rf: "remove_files_pure p (Dir ses) res res = (res, [])" by (rule remove_files_noop)
  have "\<forall>(n, t) \<in> set res. \<forall>rd. t = Dir rd \<longrightarrow>
      reverse_pure (p @ [n]) t (get (Some (Dir ses)) [n]) = (map_of res n, [])"
  proof clarify
    fix n rd
    assume m: "(n, Dir rd) \<in> set res"
    then have n: "n \<noteq> ''.''" and wr: "wf_node (Dir rd)" using names by auto
    have mr: "map_of res n = Some (Dir rd)" using di m by simp
    obtain t' where t': "map_of ses n = Some t'" using orph m by fastforce
    then have ms: "(n, t') \<in> set ses" by (rule map_of_SomeD)
    then have "in_sync md5 strict t' (Dir rd)" using ent mr by fastforce
    then have "reverse_pure (p @ [n]) (Dir rd) (Some t') = (Some (Dir rd), [])"
      using ms wr by (intro Dir.IH [of "(n, t')"]) auto
    then show "reverse_pure (p @ [n]) (Dir rd) (get (Some (Dir ses)) [n]) = (map_of res n, [])"
      using n t' mr by simp
  qed
  then have "reverse_children p (Dir ses) res res = (res, [])" by (rule reverse_children_noop)
  then show ?case using rf by simp
qed



subsection \<open>One call, and the call after it\<close>

lemma sync_pure_ok_dir:
  assumes "src st = Some (Dir ses)" "wf_node (Dir ses)" "wf_opt (rep st)"
    "sync_pure md5 st = Ok st'" "strict \<longrightarrow> dirs_free (Dir ses) (rep st)"
  shows "\<exists>res. rep st' = Some (Dir res) \<and> wf_node (Dir res) \<and>
    in_sync md5 strict (Dir ses) (Dir res) \<and> src st' = src st"
proof -
  let ?f = "forward_pure md5 [] (Dir ses) (rep st)"
  obtain r1 evs1 eo where fp: "?f = (r1, evs1, eo)" by (cases ?f) auto
  have eo: "eo = None" using assms(1,4) fp by (cases eo) (auto simp: sync_pure_def)
  have nf: "\<not> is_file (rep st)"
  proof
    assume "is_file (rep st)"
    then obtain x where "rep st = Some (File x)" by (cases "rep st"; cases "the (rep st)") auto
    then show False using fp eo by simp
  qed
  obtain res2 where r1: "r1 = Some (Dir res2)"
    using forward_pure_fst [OF nf, of md5 "[]" ses] fp by simp
  have w2: "wf_node (Dir res2)"
    using forward_pure_wf(1) [of "Dir ses" "rep st" md5 "[]"] assms(2,3) fp r1 by simp
  obtain x where x: "settle [] (Dir ses) (fst ?f) = Some x" "in_sync md5 strict (Dir ses) x"
    using settle_in_sync [of "Dir ses" "rep st" md5 "[]" strict] assms(2,3,5) fp eo by auto
  obtain r2 evs2 where rp: "reverse_pure [] (Dir res2) (Some (Dir ses)) = (r2, evs2)"
    by (cases "reverse_pure [] (Dir res2) (Some (Dir ses))") auto
  have r2: "r2 = Some x" using x(1) fp r1 rp by (simp del: forward_pure.simps reverse_pure.simps)
  obtain res4 where x4: "x = Dir res4"
    using reverse_pure_fst [of "[]" res2 "Dir ses"] rp r2 by (simp del: reverse_pure.simps)
  have w4: "wf_node (Dir res4)"
    using reverse_pure_wf(1) [of "Dir res2" "[]" "Some (Dir ses)"] w2 rp r2 x4
    by (simp del: reverse_pure.simps)
  have "st' = st\<lparr>rep := r2, log := log st @ evs1 @ evs2\<rparr>"
    using assms(1,4) fp eo r1 rp
    by (simp add: sync_pure_def del: forward_pure.simps reverse_pure.simps)
  then show ?thesis using r2 x4 x(2) w4 by simp
qed

lemma stable_after_sync:
  assumes "wf_opt (src st)" "wf_opt (rep st)" "sync_pure md5 st = Ok st'"
  shows "stable md5 (src st') (rep st') \<and> src st' = src st \<and> wf_opt (rep st')"
proof (cases "src st")
  case None
  then show ?thesis using assms
    by (cases "rep st"; cases "the (rep st)") (auto simp: sync_pure_def)
next
  case (Some t)
  show ?thesis
  proof (cases t)
    case (File c)
    then show ?thesis using assms Some
      by (cases "rep st"; cases "the (rep st)") (auto simp: sync_pure_def)
  next
    case (Dir ses)
    then show ?thesis
      using sync_pure_ok_dir [of st ses md5 st' False] assms Some by auto
  qed
qed

lemma stable_noop:
  assumes "stable md5 (src st) (rep st)" "wf_opt (rep st)"
  shows "sync_pure md5 st = Ok st"
proof (cases "src st")
  case None
  then show ?thesis using assms
    by (cases "rep st"; cases "the (rep st)") (auto simp: sync_pure_def)
next
  case (Some t)
  show ?thesis
  proof (cases t)
    case (File c)
    then show ?thesis using assms Some
      by (cases "rep st"; cases "the (rep st)") (auto simp: sync_pure_def)
  next
    case (Dir ses)
    then obtain res where r: "rep st = Some (Dir res)"
      using assms(1) Some by (cases "rep st"; cases "the (rep st)") auto
    have i: "in_sync md5 False (Dir ses) (Dir res)" using assms(1) Some Dir r by simp
    have f: "forward_pure md5 [] (Dir ses) (Some (Dir res)) = (Some (Dir res), [], None)"
      using i by (intro in_sync_forward_noop) auto
    have b: "reverse_pure [] (Dir res) (Some (Dir ses)) = (Some (Dir res), [])"
      using i assms(2) r by (intro in_sync_reverse_noop) auto
    show ?thesis using Some Dir r f b
      by (simp add: sync_pure_def del: forward_pure.simps reverse_pure.simps)
  qed
qed

lemma second_call_noop:
  assumes "wf_opt (src st)" "wf_opt (rep st)" "sync_folders md5 st = Some (Ok st1)"
  shows "sync_folders md5 st1 = Some (Ok st1) \<and> wf_opt (src st1) \<and> wf_opt (rep st1) \<and>
    stable md5 (src st1) (rep st1)"
proof -
  have "sync_pure md5 st = Ok st1" using sync_folders_pure [OF assms(1,2), of md5] assms(3) by simp
  then have s: "stable md5 (src st1) (rep st1)" "src st1 = src st" "wf_opt (rep st1)"
    using stable_after_sync [OF assms(1,2)] by auto
  then have "sync_pure md5 st1 = Ok st1" using stable_noop by blast
  then show ?thesis using s assms(1) sync_folders_pure [of st1 md5] by simp
qed



text \<open>
  Claim C4. When a call has returned, the next call on the state it left (no change from
  outside in between) returns that very state: no directory created, no file copied,
  nothing removed, no line logged.
\<close>

theorem second_call_changes_nothing:
  assumes "wf_opt (src st)" "wf_opt (rep st)" "sync_folders md5 st = Some (Ok st1)"
  shows "sync_folders md5 st1 = Some (Ok st1)"
  using second_call_noop [OF assms] by simp

theorem second_call_changes_nothing_witness:
  "sync_folders id scenario = Some (Ok scenario_synced) \<and>
   sync_folders id scenario_synced = Some (Ok scenario_synced)"
proof -
  have run: "sync_folders id scenario = Some (Ok scenario_synced)"
    by code_simp
  have wf: "wf_opt (src scenario)" "wf_opt (rep scenario)"
    by (simp_all add: scenario_def)
  show ?thesis using second_call_changes_nothing [OF wf run] run by simp
qed





subsection \<open>Errors\<close>












subsection \<open>The driver\<close>





end
